theory Spec2Isabelle
  imports Complex_Main "HOL-Library.Product_Lexorder" "HOL-Library.Log_Nat"
begin

section \<open>Values\<close>

text \<open>
  The harness works on what \<^verbatim>\<open>json.loads\<close> returns: \<^verbatim>\<open>None\<close>, booleans, integers,
  floats, strings, lists and dictionaries. A float is kept by its exact value, a rational
  number; the non-standard literals \<^verbatim>\<open>NaN\<close> and \<^verbatim>\<open>Infinity\<close> are not part of the model.
  A dictionary is an association list read with \<open>map_of\<close>; its keys are distinct, as a
  Python dictionary holds one value under a key. Strings are ASCII text.
\<close>

datatype json =
    JNull
  | JBool bool
  | JInt int
  | JFloat rat
  | JStr string
  | JList "json list"
  | JDict "(string \<times> json) list"

text \<open>\<^verbatim>\<open>isinstance(x, dict)\<close>, \<^verbatim>\<open>isinstance(x, list)\<close>, \<^verbatim>\<open>isinstance(x, str)\<close>.\<close>

fun is_dict :: "json \<Rightarrow> bool" where
  "is_dict (JDict d) = True"
| "is_dict _ = False"

fun is_list :: "json \<Rightarrow> bool" where
  "is_list (JList xs) = True"
| "is_list _ = False"

fun is_str :: "json \<Rightarrow> bool" where
  "is_str (JStr s) = True"
| "is_str _ = False"

text \<open>
  \<^verbatim>\<open>d.get(k)\<close>: the value stored under \<open>k\<close>, and \<^verbatim>\<open>None\<close> when there is none. A key that
  is absent and a key that holds \<^verbatim>\<open>null\<close> give the same answer. The function is applied
  only after the \<^verbatim>\<open>isinstance(_, dict)\<close> test of the source has succeeded.
\<close>

fun dict_get :: "json \<Rightarrow> string \<Rightarrow> json" where
  "dict_get (JDict d) k = (case map_of d k of None \<Rightarrow> JNull | Some v \<Rightarrow> v)"
| "dict_get _ k = JNull"

text \<open>\<^verbatim>\<open>type(x).__name__\<close>.\<close>

fun type_name :: "json \<Rightarrow> string" where
  "type_name JNull = ''NoneType''"
| "type_name (JBool b) = ''bool''"
| "type_name (JInt n) = ''int''"
| "type_name (JFloat q) = ''float''"
| "type_name (JStr s) = ''str''"
| "type_name (JList xs) = ''list''"
| "type_name (JDict d) = ''dict''"

text \<open>The truth value of a value, as \<^verbatim>\<open>x or y\<close> and \<^verbatim>\<open>if x\<close> test it.\<close>

fun truthy :: "json \<Rightarrow> bool" where
  "truthy JNull = False"
| "truthy (JBool b) = b"
| "truthy (JInt n) = (n \<noteq> 0)"
| "truthy (JFloat q) = (q \<noteq> 0)"
| "truthy (JStr s) = (s \<noteq> [])"
| "truthy (JList xs) = (xs \<noteq> [])"
| "truthy (JDict d) = (d \<noteq> [])"

definition py_or :: "json \<Rightarrow> json \<Rightarrow> json" where
  "py_or x y = (if truthy x then x else y)"

text \<open>Decimal rendering of an integer inside an f-string.\<close>

definition digit_char :: "nat \<Rightarrow> char" where
  "digit_char d = ''0123456789'' ! d"

fun show_nat :: "nat \<Rightarrow> string" where
  "show_nat n = (if n < 10 then [digit_char n] else show_nat (n div 10) @ [digit_char (n mod 10)])"

declare show_nat.simps [simp del]

definition show_int :: "int \<Rightarrow> string" where
  "show_int i = (if i < 0 then CHR ''-'' # show_nat (nat (- i)) else show_nat (nat i))"

section \<open>Binary floating point\<close>

text \<open>
  A Python float is a binary64 number, kept here by its exact value. Where a result of the
  program depends on the rounding of a quotient to binary64, the rounding is written out:
  \<open>binary64 q\<close> is the binary64 number nearest to \<open>q\<close>, the one with the even significand
  of two that are equally near. For \<open>q\<close> other than 0, with \<open>2 ^ e \<le> |q| < 2 ^ (e + 1)\<close>,
  the numbers near \<open>q\<close> are the multiples of \<open>2 ^ (e - 52)\<close>, and of \<open>2 ^ -1074\<close> below the
  normal range. The largest binary64 number is \<open>max_binary64\<close>; a result beyond it is an
  \<^verbatim>\<open>OverflowError\<close> in Python, and is tested for where it can occur.
\<close>

definition round_half_even :: "rat \<Rightarrow> int" where
  "round_half_even q =
     (let f = \<lfloor>q\<rfloor>; d = q - of_int f
      in if d < 1 / 2 then f else if 1 / 2 < d then f + 1 else if even f then f else f + 1)"

definition ilog2 :: "rat \<Rightarrow> int" where
  "ilog2 a =
     (let (n, d) = quotient_of a; e0 = bitlen n - bitlen d
      in if 2 powi e0 \<le> a then e0 else e0 - 1)"

definition binary64 :: "rat \<Rightarrow> rat" where
  "binary64 q =
     (if q = 0 then 0
      else let a = \<bar>q\<bar>; p = max (ilog2 a - 52) (- 1074); m = round_half_even (a / 2 powi p)
           in sgn q * of_int m * 2 powi p)"

definition max_binary64 :: rat where
  "max_binary64 = (2 ^ 53 - 1) * 2 ^ 971"

text \<open>
  \<^verbatim>\<open>round(x, 2)\<close> on a float: the exact value of \<open>x\<close> is rounded to the nearest multiple of
  \<open>1/100\<close>, the even one of two that are equally near, and the result is the binary64
  number nearest to that decimal.
\<close>

definition py_round2 :: "rat \<Rightarrow> rat" where
  "py_round2 x = binary64 (of_int (round_half_even (x * 100)) / 100)"

section \<open>The shape validator of eval.py\<close>

text \<open>
  The loop \<^verbatim>\<open>for idx, action in enumerate(actions)\<close> of \<^verbatim>\<open>_validate_actions_shape\<close>,
  started at index \<open>idx\<close>: it returns at the first element that is not a dictionary or
  whose \<^verbatim>\<open>type\<close> is neither \<^verbatim>\<open>None\<close> nor a string.
\<close>

fun check_actions :: "nat \<Rightarrow> json list \<Rightarrow> bool \<times> string" where
  "check_actions idx [] = (True, ''ok'')"
| "check_actions idx (action # rest) =
     (if \<not> is_dict action then
        (False, ''actions['' @ show_nat idx @ ''] is not an object'')
      else if dict_get action ''type'' \<noteq> JNull \<and> \<not> is_str (dict_get action ''type'') then
        (False, ''actions['' @ show_nat idx @ ''].type must be a string when present'')
      else check_actions (Suc idx) rest)"

definition validate_actions_shape :: "json \<Rightarrow> bool \<times> string" where
  "validate_actions_shape payload =
     (if \<not> is_dict payload then
        (False, ''response is not an object ('' @ type_name payload @ '')'')
      else (case dict_get payload ''actions'' of
              JList actions \<Rightarrow> check_actions 0 actions
            | _ \<Rightarrow> (False, ''missing or invalid 'actions' list'')))"

text \<open>
  What the validator accepts, read off the contract: an element passes when it is an object
  whose \<^verbatim>\<open>type\<close> is absent, \<^verbatim>\<open>null\<close> or a string.
\<close>

definition action_ok :: "json \<Rightarrow> bool" where
  "action_ok a = (is_dict a \<and> (dict_get a ''type'' = JNull \<or> is_str (dict_get a ''type'')))"

definition well_shaped :: "json \<Rightarrow> bool" where
  "well_shaped payload =
     (is_dict payload \<and>
      (case dict_get payload ''actions'' of JList actions \<Rightarrow> list_all action_ok actions | _ \<Rightarrow> False))"

text \<open>
  The stricter reading, in which a \<^verbatim>\<open>type\<close> key that is present must hold a string,
  whatever else it holds.
\<close>

fun type_present_is_str :: "json \<Rightarrow> bool" where
  "type_present_is_str (JDict d) = (case map_of d ''type'' of None \<Rightarrow> True | Some t \<Rightarrow> is_str t)"
| "type_present_is_str _ = False"

definition strictly_shaped :: "json \<Rightarrow> bool" where
  "strictly_shaped payload =
     (is_dict payload \<and>
      (case dict_get payload ''actions'' of
         JList actions \<Rightarrow> list_all type_present_is_str actions
       | _ \<Rightarrow> False))"

text \<open>The message for the element at index \<open>i\<close> that stops the validator.\<close>

definition offending_msg :: "nat \<Rightarrow> json \<Rightarrow> string" where
  "offending_msg i a =
     (if \<not> is_dict a then ''actions['' @ show_nat i @ ''] is not an object''
      else ''actions['' @ show_nat i @ ''].type must be a string when present'')"

section \<open>Built-in conversions\<close>

text \<open>
  Exceptions are values. \<open>ValueError\<close> carries its message; \<open>OSError\<close> stands for a failure
  of the file system, of the JSON decoder or of process creation; \<open>SystemExit\<close> carries the
  exit code.
\<close>

datatype error =
    ValueError string
  | TypeError
  | AttributeError
  | OverflowError
  | OSError
  | SystemExit int

text \<open>
  The parts of Python's built-ins that are not spelled out here are parameters:
  \<open>int_of_str\<close> is \<^verbatim>\<open>int(s)\<close> on a string (\<open>None\<close> when it raises),
  \<open>float_of_str\<close> is \<^verbatim>\<open>float(s)\<close> on a string, and \<open>repr_of\<close> is \<^verbatim>\<open>repr(x)\<close>,
  which is what \<^verbatim>\<open>str(x)\<close> prints for a float, a list or a dictionary.
\<close>

record builtins =
  int_of_str :: "string \<Rightarrow> int option"
  float_of_str :: "string \<Rightarrow> rat option"
  repr_of :: "json \<Rightarrow> string"

text \<open>\<^verbatim>\<open>str(x)\<close>.\<close>

fun py_str :: "builtins \<Rightarrow> json \<Rightarrow> string" where
  "py_str B (JStr s) = s"
| "py_str B JNull = ''None''"
| "py_str B (JBool b) = (if b then ''True'' else ''False'')"
| "py_str B (JInt n) = show_int n"
| "py_str B (JFloat q) = repr_of B (JFloat q)"
| "py_str B (JList xs) = repr_of B (JList xs)"
| "py_str B (JDict d) = repr_of B (JDict d)"

text \<open>\<^verbatim>\<open>int(x)\<close>: a float is truncated towards zero, a string is parsed, a container is refused.\<close>

fun py_int :: "builtins \<Rightarrow> json \<Rightarrow> error + int" where
  "py_int B (JInt n) = Inr n"
| "py_int B (JBool b) = Inr (if b then 1 else 0)"
| "py_int B (JFloat q) = Inr (if 0 \<le> q then \<lfloor>q\<rfloor> else \<lceil>q\<rceil>)"
| "py_int B (JStr s) =
     (case int_of_str B s of
        Some n \<Rightarrow> Inr n
      | None \<Rightarrow> Inl (ValueError (''invalid literal for int() with base 10: '' @ repr_of B (JStr s))))"
| "py_int B JNull = Inl TypeError"
| "py_int B (JList xs) = Inl TypeError"
| "py_int B (JDict d) = Inl TypeError"

text \<open>
  \<^verbatim>\<open>float(x)\<close>: an integer becomes the nearest binary64 number, and is refused when that
  is beyond the largest one.
\<close>

fun py_float :: "builtins \<Rightarrow> json \<Rightarrow> error + rat" where
  "py_float B (JInt n) =
     (if max_binary64 < \<bar>binary64 (of_int n)\<bar> then Inl OverflowError
      else Inr (binary64 (of_int n)))"
| "py_float B (JBool b) = Inr (if b then 1 else 0)"
| "py_float B (JFloat q) = Inr q"
| "py_float B (JStr s) =
     (case float_of_str B s of
        Some q \<Rightarrow> Inr q
      | None \<Rightarrow> Inl (ValueError (''could not convert string to float: '' @ repr_of B (JStr s))))"
| "py_float B JNull = Inl TypeError"
| "py_float B (JList xs) = Inl TypeError"
| "py_float B (JDict d) = Inl TypeError"

section \<open>The task source of eval.py\<close>

record task =
  task_id :: string
  prompt :: string
  url :: string
  snapshot_html :: string
  step_index :: int
  history :: "json list"

text \<open>\<^verbatim>\<open>_default_tasks\<close>: one synthetic task for each \<open>i\<close> in \<^verbatim>\<open>range(max(1, int(num_tasks)))\<close>.\<close>

definition default_task :: "nat \<Rightarrow> task" where
  "default_task i =
     \<lparr> task_id = ''template-task-'' @ show_nat i,
       prompt = ''Template task for /act schema validation'',
       url = ''https://example.com'',
       snapshot_html = ''<html><body><button>Continue</button></body></html>'',
       step_index = int i,
       history = [] \<rparr>"

definition default_tasks :: "int \<Rightarrow> task list" where
  "default_tasks num_tasks = map default_task [0 ..< nat (max 1 num_tasks)]"

text \<open>
  The dictionary built for one retained entry of the file, at position \<open>i\<close> of the list.
  Only \<^verbatim>\<open>int(...)\<close> can raise.
\<close>

definition task_of_item :: "builtins \<Rightarrow> nat \<Rightarrow> json \<Rightarrow> error + task" where
  "task_of_item B i item =
     (case py_int B (py_or (dict_get item ''step_index'') (JInt 0)) of
        Inl e \<Rightarrow> Inl e
      | Inr n \<Rightarrow>
          Inr \<lparr> task_id = py_str B (py_or (dict_get item ''task_id'') (JStr (''task-'' @ show_nat i))),
                prompt = py_str B (py_or (dict_get item ''prompt'') (JStr ''Template task'')),
                url = py_str B (py_or (dict_get item ''url'') (JStr ''https://example.com'')),
                snapshot_html = py_str B (py_or (dict_get item ''snapshot_html'') (JStr ''<html></html>'')),
                step_index = n,
                history = (case dict_get item ''history'' of JList h \<Rightarrow> h | _ \<Rightarrow> []) \<rparr>)"

text \<open>
  The loop \<^verbatim>\<open>for i, item in enumerate(data)\<close> of \<^verbatim>\<open>_load_tasks\<close>, from position \<open>i\<close> on,
  with the tasks appended so far.
\<close>

fun load_items :: "builtins \<Rightarrow> nat \<Rightarrow> json list \<Rightarrow> task list \<Rightarrow> error + task list" where
  "load_items B i [] tasks = Inr tasks"
| "load_items B i (item # rest) tasks =
     (if \<not> is_dict item then load_items B (Suc i) rest tasks
      else (case task_of_item B i item of
              Inl e \<Rightarrow> Inl e
            | Inr t \<Rightarrow> load_items B (Suc i) rest (tasks @ [t])))"

text \<open>The choice of \<^verbatim>\<open>data\<close> from the parsed file.\<close>

fun list_items :: "json \<Rightarrow> json list" where
  "list_items (JList xs) = xs"
| "list_items _ = []"

definition tasks_data :: "json \<Rightarrow> error + json list" where
  "tasks_data raw =
     (if is_dict raw \<and> is_list (dict_get raw ''tasks'') then Inr (list_items (dict_get raw ''tasks''))
      else if is_list raw then Inr (list_items raw)
      else Inl (ValueError ''tasks file must be a JSON list or {'tasks':[...]} object''))"

text \<open>
  \<^verbatim>\<open>_load_tasks\<close>. Reading and decoding the file, \<^verbatim>\<open>json.loads(p.read_text(...))\<close>, is the
  parameter \<open>read_json\<close>; a path that is \<^verbatim>\<open>None\<close> or empty selects the synthetic tasks.
\<close>

definition load_tasks ::
  "builtins \<Rightarrow> (string \<Rightarrow> error + json) \<Rightarrow> string option \<Rightarrow> int \<Rightarrow> error + task list" where
  "load_tasks B read_json path fallback_num_tasks =
     (case path of
        None \<Rightarrow> Inr (default_tasks fallback_num_tasks)
      | Some p \<Rightarrow>
          if p = [] then Inr (default_tasks fallback_num_tasks)
          else (case read_json p of
                  Inl e \<Rightarrow> Inl e
                | Inr raw \<Rightarrow>
                    (case tasks_data raw of
                       Inl e \<Rightarrow> Inl e
                     | Inr data \<Rightarrow> load_items B 0 data [])))"

section \<open>The single-run executor of eval.py\<close>

text \<open>
  One call of \<^verbatim>\<open>_call_act\<close> either raises an exception, whose \<^verbatim>\<open>str\<close> is kept (it is empty
  for an exception raised without a message, as the one of a timeout), or returns
  the status, the elapsed milliseconds and the decoded body. The agent and the network are
  a parameter of the run: \<open>post r idx t\<close> is what the call for task \<open>t\<close> at position \<open>idx\<close> of
  repetition \<open>r\<close> does, under the session's timeout. An exception is one that
  \<^verbatim>\<open>except Exception\<close> catches: a timeout, a refused connection, a transport error, a body
  that is no JSON. The interruption of the whole process is not an outcome of a call.
\<close>

record call =
  call_status :: int
  call_elapsed_ms :: int
  call_body :: json

datatype call_outcome = Raised string | Returned call

record call_result =
  repeat_index :: nat
  task_index :: nat
  result_task_id :: string
  ok :: bool
  status :: "int option"
  elapsed_ms :: "int option"
  shape_ok :: "bool option"
  shape_msg :: "string option"
  action_count :: "nat option"
  error :: "string option"

text \<open>The body of the inner loop: the record as it starts, then the \<^verbatim>\<open>try\<close> block.\<close>

definition initial_result :: "nat \<Rightarrow> nat \<Rightarrow> task \<Rightarrow> call_result" where
  "initial_result r idx t =
     \<lparr> repeat_index = r, task_index = idx, result_task_id = task_id t, ok = False,
       status = None, elapsed_ms = None, shape_ok = None, shape_msg = None,
       action_count = None, error = None \<rparr>"

definition count_actions :: "json \<Rightarrow> nat" where
  "count_actions body =
     (let actions = (if is_dict body then dict_get body ''actions'' else JList [])
      in if is_list actions then length (list_items actions) else 0)"

definition run_call :: "(nat \<Rightarrow> nat \<Rightarrow> task \<Rightarrow> call_outcome) \<Rightarrow> nat \<Rightarrow> nat \<Rightarrow> task \<Rightarrow> call_result" where
  "run_call post r idx t =
     (case post r idx t of
        Raised msg \<Rightarrow> (initial_result r idx t) \<lparr> error := Some msg \<rparr>
      | Returned c \<Rightarrow>
          (initial_result r idx t)
            \<lparr> status := Some (call_status c),
              elapsed_ms := Some (call_elapsed_ms c),
              shape_ok := Some (fst (validate_actions_shape (call_body c))),
              shape_msg := Some (snd (validate_actions_shape (call_body c))),
              action_count := Some (count_actions (call_body c)),
              ok := (call_status c = 200 \<and> fst (validate_actions_shape (call_body c))) \<rparr>)"

text \<open>\<^verbatim>\<open>enumerate(xs)\<close>, and the two nested loops appending to \<^verbatim>\<open>episodes\<close>.\<close>

definition enumerate_from0 :: "'a list \<Rightarrow> (nat \<times> 'a) list" where
  "enumerate_from0 xs = List.enumerate 0 xs"

definition run_tasks ::
  "(nat \<Rightarrow> nat \<Rightarrow> task \<Rightarrow> call_outcome) \<Rightarrow> task list \<Rightarrow> nat \<Rightarrow> call_result list \<Rightarrow> call_result list" where
  "run_tasks post tasks r episodes =
     fold (\<lambda>(idx, t) eps. eps @ [run_call post r idx t]) (enumerate_from0 tasks) episodes"

definition run_episodes ::
  "(nat \<Rightarrow> nat \<Rightarrow> task \<Rightarrow> call_outcome) \<Rightarrow> task list \<Rightarrow> int \<Rightarrow> call_result list" where
  "run_episodes post tasks rep = fold (run_tasks post tasks) [0 ..< nat (max 1 rep)] []"

text \<open>
  The summary. \<open>ok_rate\<close> is kept as the quotient itself, of which the float stored is the
  nearest binary64 number. The quotient of the latencies is rounded to binary64, as
  \<^verbatim>\<open>round(x, 2)\<close> acts on that number and its result depends on it. Each \<open>elapsed_ms\<close> is the
  integer part of a binary64 number, so the mean is not beyond \<open>max_binary64\<close> and the
  division does not overflow.
\<close>

record run_summary =
  total_calls :: nat
  ok_calls :: nat
  ok_rate :: rat
  avg_latency_ms :: rat

text \<open>\<^verbatim>\<open>int(ep.get("elapsed_ms") or 0)\<close>.\<close>

definition elapsed_or_0 :: "call_result \<Rightarrow> int" where
  "elapsed_or_0 ep = (case elapsed_ms ep of None \<Rightarrow> 0 | Some n \<Rightarrow> if n \<noteq> 0 then n else 0)"

definition ok_count :: "call_result list \<Rightarrow> nat" where
  "ok_count episodes = sum_list (map (\<lambda>ep. 1) (filter ok episodes))"

definition avg_latency :: "call_result list \<Rightarrow> rat" where
  "avg_latency episodes =
     (if episodes \<noteq> []
      then binary64 (of_int (sum_list (map elapsed_or_0 episodes)) / of_nat (length episodes))
      else 0)"

definition summarize :: "call_result list \<Rightarrow> run_summary" where
  "summarize episodes =
     \<lparr> total_calls = length episodes,
       ok_calls = ok_count episodes,
       ok_rate = (if episodes \<noteq> [] then of_nat (ok_count episodes) / of_nat (length episodes) else 0),
       avg_latency_ms = py_round2 (avg_latency episodes) \<rparr>"

record run_result =
  agent_base_url :: string
  num_tasks :: nat
  repeat_count :: int
  episodes :: "call_result list"
  summary :: run_summary

definition run_eval ::
  "(nat \<Rightarrow> nat \<Rightarrow> task \<Rightarrow> call_outcome) \<Rightarrow> string \<Rightarrow> task list \<Rightarrow> int \<Rightarrow> run_result" where
  "run_eval post base_url tasks rep =
     (let eps = run_episodes post tasks rep
      in \<lparr> agent_base_url = base_url,
           num_tasks = length tasks,
           repeat_count = rep,
           episodes = eps,
           summary = summarize eps \<rparr>)"

text \<open>
  \<^verbatim>\<open>main\<close> of eval.py up to the result it writes: the tasks are loaded first, and a failure
  there ends the program before any call is made.
\<close>

definition eval_main ::
  "builtins \<Rightarrow> (string \<Rightarrow> error + json) \<Rightarrow> (nat \<Rightarrow> nat \<Rightarrow> task \<Rightarrow> call_outcome) \<Rightarrow>
   string \<Rightarrow> string option \<Rightarrow> int \<Rightarrow> int \<Rightarrow> error + run_result" where
  "eval_main B read_json post base_url tasks_file n_tasks rep =
     (case load_tasks B read_json tasks_file n_tasks of
        Inl e \<Rightarrow> Inl e
      | Inr tasks \<Rightarrow> Inr (run_eval post base_url tasks rep))"

section \<open>Run configurations of compare_eval.py\<close>

record run_spec =
  provider :: string
  model :: string

text \<open>\<^verbatim>\<open>str.lower\<close> on ASCII text.\<close>

definition lower_char :: "char \<Rightarrow> char" where
  "lower_char c =
     (case map_of (zip ''ABCDEFGHIJKLMNOPQRSTUVWXYZ'' ''abcdefghijklmnopqrstuvwxyz'') c of
        None \<Rightarrow> c
      | Some l \<Rightarrow> l)"

definition str_lower :: "string \<Rightarrow> string" where
  "str_lower s = map lower_char s"

text \<open>The characters of the class \<^verbatim>\<open>[a-z0-9._-]\<close>.\<close>

definition slug_char :: "char \<Rightarrow> bool" where
  "slug_char c = (c \<in> set ''abcdefghijklmnopqrstuvwxyz0123456789._-'')"

text \<open>
  \<^verbatim>\<open>re.sub(r"[^...]+", repl, s)\<close> for a character class given by the predicate \<open>keep\<close>: the
  scan goes from left to right; where a character outside the class starts a match, the
  greedy \<^verbatim>\<open>+\<close> takes all the characters outside the class that follow, the replacement is
  written once and the scan goes on after the match.
\<close>

function re_sub_not :: "(char \<Rightarrow> bool) \<Rightarrow> string \<Rightarrow> string \<Rightarrow> string" where
  "re_sub_not keep repl [] = []"
| "re_sub_not keep repl (c # cs) =
     (if keep c then c # re_sub_not keep repl cs
      else repl @ re_sub_not keep repl (dropWhile (\<lambda>x. \<not> keep x) cs))"
  by pat_completeness auto
termination
  by (relation "measure (\<lambda>(keep, repl, s). length s)")
     (auto simp: length_dropWhile_le less_Suc_eq_le)

definition slug :: "run_spec \<Rightarrow> string" where
  "slug spec = re_sub_not slug_char ''_'' (str_lower (provider spec @ ''__'' @ model spec))"

text \<open>
  The description of the slug in words: the text is cut into its maximal runs of characters
  that are all inside or all outside the class, and every run outside the class becomes one
  underscore.
\<close>

function runs :: "(char \<Rightarrow> bool) \<Rightarrow> string \<Rightarrow> string list" where
  "runs keep [] = []"
| "runs keep (c # cs) =
     (c # takeWhile (\<lambda>x. keep x = keep c) cs) # runs keep (dropWhile (\<lambda>x. keep x = keep c) cs)"
  by pat_completeness auto
termination
  by (relation "measure (\<lambda>(keep, s). length s)")
     (auto simp: length_dropWhile_le less_Suc_eq_le)

definition collapse_run :: "(char \<Rightarrow> bool) \<Rightarrow> string \<Rightarrow> string" where
  "collapse_run keep run = (if list_all keep run then run else ''_'')"

definition slug_in_words :: "run_spec \<Rightarrow> string" where
  "slug_in_words spec =
     concat (map (collapse_run slug_char) (runs slug_char (str_lower (provider spec @ ''__'' @ model spec))))"

section \<open>The comparator of compare_eval.py\<close>

record row =
  row_provider :: string
  row_model :: string
  row_ok_calls :: int
  row_total_calls :: int
  row_ok_rate :: rat
  row_avg_latency_ms :: rat
  row_out :: string

text \<open>
  The world of the comparator: \<open>subprocess_run k spec\<close> is what launching the \<open>k\<close>-th
  sub-run does (an exception, or the return code of the process), and \<open>read_artifact k path\<close>
  is what reading and decoding the artifact gives afterwards. \<open>compare_dir\<close> is the text of
  the absolute path \<^verbatim>\<open>REPO_DIR / "data" / "compare"\<close>, under which the artifacts are written.
\<close>

record world =
  compare_dir :: string
  subprocess_run :: "nat \<Rightarrow> run_spec \<Rightarrow> error + int"
  read_artifact :: "nat \<Rightarrow> string \<Rightarrow> error + json"

definition run_out :: "world \<Rightarrow> run_spec \<Rightarrow> string" where
  "run_out W spec = compare_dir W @ ''/'' @ slug spec @ ''.json''"

text \<open>The row built from the payload read back; \<^verbatim>\<open>.get\<close> on a value that is no dictionary raises.\<close>

definition row_of :: "builtins \<Rightarrow> world \<Rightarrow> run_spec \<Rightarrow> json \<Rightarrow> error + row" where
  "row_of B W spec payload =
     (if \<not> is_dict payload then Inl AttributeError
      else let s = py_or (dict_get payload ''summary'') (JDict [])
      in if \<not> is_dict s then Inl AttributeError
      else (case py_int B (py_or (dict_get s ''ok_calls'') (JInt 0)) of
              Inl e \<Rightarrow> Inl e
            | Inr okc \<Rightarrow>
         (case py_int B (py_or (dict_get s ''total_calls'') (JInt 0)) of
              Inl e \<Rightarrow> Inl e
            | Inr tot \<Rightarrow>
         (case py_float B (py_or (dict_get s ''ok_rate'') (JFloat 0)) of
              Inl e \<Rightarrow> Inl e
            | Inr rate \<Rightarrow>
         (case py_float B (py_or (dict_get s ''avg_latency_ms'') (JFloat 0)) of
              Inl e \<Rightarrow> Inl e
            | Inr lat \<Rightarrow>
                Inr \<lparr> row_provider = provider spec, row_model = model spec,
                      row_ok_calls = okc, row_total_calls = tot,
                      row_ok_rate = rate, row_avg_latency_ms = lat,
                      row_out = run_out W spec \<rparr>)))))"

text \<open>
  The state of \<^verbatim>\<open>main\<close> while it loops over the configurations: the sub-runs launched so
  far, in the order of their launch, and the rows collected. The loop stops at the first
  exception; \<open>outcome\<close> is that exception, and \<open>None\<close> when the loop has run to its end.
\<close>

record compare_state =
  launched :: "run_spec list"
  summary_rows :: "row list"
  outcome :: "error option"

definition run_one :: "builtins \<Rightarrow> world \<Rightarrow> run_spec \<Rightarrow> compare_state \<Rightarrow> compare_state" where
  "run_one B W spec st =
     (let k = length (launched st); st1 = st \<lparr> launched := launched st @ [spec] \<rparr>
      in case subprocess_run W k spec of
           Inl e \<Rightarrow> st1 \<lparr> outcome := Some e \<rparr>
         | Inr returncode \<Rightarrow>
             if returncode \<noteq> 0 then st1 \<lparr> outcome := Some (SystemExit returncode) \<rparr>
             else (case read_artifact W k (run_out W spec) of
                     Inl e \<Rightarrow> st1 \<lparr> outcome := Some e \<rparr>
                   | Inr payload \<Rightarrow>
                       (case row_of B W spec payload of
                          Inl e \<Rightarrow> st1 \<lparr> outcome := Some e \<rparr>
                        | Inr rw \<Rightarrow> st1 \<lparr> summary_rows := summary_rows st1 @ [rw] \<rparr>)))"

fun run_specs_loop :: "builtins \<Rightarrow> world \<Rightarrow> run_spec list \<Rightarrow> compare_state \<Rightarrow> compare_state" where
  "run_specs_loop B W [] st = st"
| "run_specs_loop B W (spec # rest) st =
     (let st1 = run_one B W spec st
      in if outcome st1 \<noteq> None then st1 else run_specs_loop B W rest st1)"

text \<open>
  \<^verbatim>\<open>main\<close> from the loop on: what the program exits with, the sub-runs it launched, and the
  content of \<^verbatim>\<open>compare_summary.json\<close> when that file is written.
\<close>

record compare_result =
  exit_with :: "error option"
  sub_runs :: "run_spec list"
  compare_summary :: "row list option"

definition sort_rows :: "row list \<Rightarrow> row list" where
  "sort_rows rows = sort_key (\<lambda>r. (- row_ok_rate r, row_avg_latency_ms r)) rows"

definition compare_main :: "builtins \<Rightarrow> world \<Rightarrow> run_spec list \<Rightarrow> compare_result" where
  "compare_main B W run_specs =
     (let st = run_specs_loop B W run_specs \<lparr> launched = [], summary_rows = [], outcome = None \<rparr>
      in case outcome st of
           Some e \<Rightarrow> \<lparr> exit_with = Some e, sub_runs = launched st, compare_summary = None \<rparr>
         | None \<Rightarrow> \<lparr> exit_with = None, sub_runs = launched st,
                     compare_summary = Some (sort_rows (summary_rows st)) \<rparr>)"

section \<open>Auxiliary notions for the statements\<close>

text \<open>
  An entry whose \<^verbatim>\<open>step_index\<close> the conversion \<^verbatim>\<open>int(...)\<close> accepts, after the default
  for a missing or false value has been put in.
\<close>

definition step_index_ok :: "builtins \<Rightarrow> json \<Rightarrow> bool" where
  "step_index_ok B item =
     (case py_int B (py_or (dict_get item ''step_index'') (JInt 0)) of
        Inl e \<Rightarrow> False
      | Inr n \<Rightarrow> True)"

text \<open>A result whose \<open>error\<close> holds a description: a text that is not empty.\<close>

definition error_described :: "call_result \<Rightarrow> bool" where
  "error_described ep = (case error ep of None \<Rightarrow> False | Some msg \<Rightarrow> msg \<noteq> [])"

text \<open>
  The text of a field of an entry: its own value, through \<^verbatim>\<open>str\<close>, when that value counts
  as true, and the fallback otherwise.
\<close>

definition field_or :: "builtins \<Rightarrow> json \<Rightarrow> string \<Rightarrow> string \<Rightarrow> string" where
  "field_or B item key fallback =
     (if truthy (dict_get item key) then py_str B (dict_get item key) else fallback)"

section \<open>Properties of binary floating point\<close>

lemma binary64_0: "binary64 0 = 0"
  by (simp add: binary64_def)

lemma round_half_even_near: "\<bar>of_int (round_half_even q) - q\<bar> \<le> 1 / 2"
proof -
  have lo: "of_int \<lfloor>q\<rfloor> \<le> q" and hi: "q < of_int \<lfloor>q\<rfloor> + 1"
    by linarith+
  show ?thesis
    unfolding round_half_even_def Let_def using lo hi
    by (auto simp: abs_le_iff)
qed

lemma round_half_even_le: "q \<le> of_int n \<Longrightarrow> round_half_even q \<le> n"
proof -
  assume q: "q \<le> of_int n"
  then have f: "\<lfloor>q\<rfloor> \<le> n" by (simp add: floor_le_iff) 
  show ?thesis
  proof (cases "\<lfloor>q\<rfloor> = n")
    case True
    then have "of_int n \<le> q" by (metis of_int_floor_le)
    with q have "q = of_int n" by simp
    then show ?thesis by (simp add: round_half_even_def)
  next
    case False
    with f have "\<lfloor>q\<rfloor> + 1 \<le> n" by simp
    then show ?thesis unfolding round_half_even_def Let_def by auto
  qed
qed

lemma round_half_even_nonneg: "0 \<le> q \<Longrightarrow> 0 \<le> round_half_even q"
  unfolding round_half_even_def Let_def by (auto simp: floor_less_iff)


lemma powi_pos: "0 < (2::rat) powi e"
  by (simp add: power_int_def)

lemma powi_diff: "(2::rat) powi (m - n) = 2 powi m / 2 powi n"
  by (rule power_int_diff) simp

lemma powi_add: "(2::rat) powi (m + n) = 2 powi m * 2 powi n"
  by (rule power_int_add) simp

lemma powi_mono: "m \<le> n \<Longrightarrow> (2::rat) powi m \<le> 2 powi n"
proof -
  assume "m \<le> n"
  then obtain k where n: "n = m + int k" by (metis zle_iff_zadd)
  have "(1::rat) \<le> 2 ^ k" by simp
  then have "(2::rat) powi m * 1 \<le> 2 powi m * 2 ^ k"
    by (intro mult_left_mono) (simp_all add: less_imp_le [OF powi_pos])
  then show ?thesis unfolding n powi_add by simp
qed

lemma powi_less_imp: "(2::rat) powi m < 2 powi n \<Longrightarrow> m < n"
  using powi_mono [of n m] by (cases "m < n") simp_all

lemma bitlen_bounds_rat:
  assumes "0 < n"
  shows "(2::rat) powi (bitlen n - 1) \<le> of_int n" and "of_int n < (2::rat) powi (bitlen n)"
proof -
  from assms have b: "2 ^ nat (bitlen n - 1) \<le> n" and c: "n < 2 ^ nat (bitlen n)"
    using bitlen_bounds [of n] by simp_all
  from assms have pos: "0 < bitlen n"
    using bitlen_nonneg [of n] bitlen_eq_zero_iff [of n] by (cases "bitlen n = 0") simp_all
  have "(2::rat) powi (bitlen n - 1) = of_int (2 ^ nat (bitlen n - 1))"
    using pos by (simp add: power_int_def)
  also have "\<dots> \<le> of_int n" using b by (simp only: of_int_le_iff)
  finally show "(2::rat) powi (bitlen n - 1) \<le> of_int n" .
  have "(of_int n :: rat) < of_int (2 ^ nat (bitlen n))" using c by (simp only: of_int_less_iff)
  also have "\<dots> = (2::rat) powi (bitlen n)"
    using pos by (simp add: power_int_def)
  finally show "of_int n < (2::rat) powi (bitlen n)" .
qed

lemma ilog2_bounds:
  assumes "0 < a"
  shows "2 powi (ilog2 a) \<le> a" and "a < 2 powi (ilog2 a + 1)"
proof -
  obtain n d where qo: "quotient_of a = (n, d)" by (cases "quotient_of a")
  then have d: "0 < d" by (rule quotient_of_denom_pos)
  from qo have a: "a = of_int n / of_int d" by (rule quotient_of_div)
  from assms d have n: "0 < n" unfolding a by (simp add: zero_less_divide_iff)
  let ?e = "bitlen n - bitlen d"
  note N = bitlen_bounds_rat [OF n] and D = bitlen_bounds_rat [OF d]
  have dpos: "(0::rat) < of_int d" using d by simp
  have ad: "a * of_int d = of_int n" unfolding a using d by simp
  have up: "a < 2 powi (?e + 1)"
  proof -
    have "a * 2 powi (bitlen d - 1) \<le> a * of_int d"
      using D(1) assms by (intro mult_left_mono) simp_all
    also have "\<dots> < 2 powi (bitlen n)" unfolding ad by (rule N(2))
    finally have "a < 2 powi (bitlen n) / 2 powi (bitlen d - 1)"
      by (simp add: pos_less_divide_eq powi_pos)
    also have "\<dots> = 2 powi (bitlen n - (bitlen d - 1))" by (simp only: powi_diff)
    finally show ?thesis by (simp add: algebra_simps)
  qed
  have lo: "2 powi (?e - 1) < a"
  proof -
    have "2 powi (bitlen n - 1) \<le> a * of_int d" unfolding ad by (rule N(1))
    also have "\<dots> < a * 2 powi (bitlen d)"
      using D(2) assms by (intro mult_strict_left_mono) simp_all
    finally have "2 powi (bitlen n - 1) / 2 powi (bitlen d) < a"
      by (simp add: pos_divide_less_eq powi_pos)
    moreover have "2 powi (bitlen n - 1) / (2::rat) powi (bitlen d) = 2 powi (bitlen n - 1 - bitlen d)"
      by (simp only: powi_diff)
    ultimately show ?thesis by (simp add: algebra_simps)
  qed
  have il: "ilog2 a = (if 2 powi ?e \<le> a then ?e else ?e - 1)"
    by (simp add: ilog2_def qo Let_def)
  show "2 powi (ilog2 a) \<le> a"
    unfolding il using lo by (simp add: less_imp_le)
  show "a < 2 powi (ilog2 a + 1)"
    unfolding il using up by (simp add: not_le)
qed

lemma max_binary64_powi: "max_binary64 = (2 ^ 53 - 1) * 2 powi 971"
  by (simp add: max_binary64_def)

lemma max_binary64_less: "max_binary64 < 2 powi 1024"
proof -
  have "(2::rat) powi 1024 = 2 powi (53 + 971)" by simp
  also have "\<dots> = 2 ^ 53 * 2 powi 971" unfolding powi_add by simp
  finally have e: "(2::rat) powi 1024 = 2 ^ 53 * 2 powi 971" .
  have "((2::rat) ^ 53 - 1) * 2 powi 971 < 2 ^ 53 * 2 powi 971"
    by (intro mult_strict_right_mono powi_pos) simp
  then show ?thesis unfolding e max_binary64_powi .
qed

lemma binary64_abs:
  "q \<noteq> 0 \<Longrightarrow>
     \<bar>binary64 q\<bar> = of_int (round_half_even (\<bar>q\<bar> / 2 powi (max (ilog2 \<bar>q\<bar> - 52) (- 1074))))
                     * 2 powi (max (ilog2 \<bar>q\<bar> - 52) (- 1074))"
proof -
  assume q: "q \<noteq> 0"
  let ?p = "max (ilog2 \<bar>q\<bar> - 52) (- 1074)"
  let ?m = "round_half_even (\<bar>q\<bar> / 2 powi ?p)"
  have "0 \<le> \<bar>q\<bar> / 2 powi ?p" by (simp add: less_imp_le [OF powi_pos])
  then have m: "0 \<le> ?m" by (rule round_half_even_nonneg)
  have b: "binary64 q = sgn q * of_int ?m * 2 powi ?p"
    using q by (simp add: binary64_def Let_def)
  have "\<bar>sgn q * of_int ?m * 2 powi ?p\<bar> = \<bar>sgn q\<bar> * \<bar>of_int ?m\<bar> * \<bar>(2::rat) powi ?p\<bar>"
    by (simp only: abs_mult)
  also have "\<dots> = of_int ?m * 2 powi ?p"
    using q m by (simp add: abs_sgn_eq less_imp_le [OF powi_pos] abs_of_nonneg)
  finally show ?thesis unfolding b .
qed

lemma binary64_in_range:
  assumes "\<bar>q\<bar> \<le> max_binary64"
  shows "\<bar>binary64 q\<bar> \<le> max_binary64"
proof (cases "q = 0")
  case True
  then show ?thesis by (simp add: binary64_0 max_binary64_def)
next
  case False
  let ?a = "\<bar>q\<bar>"
  let ?e = "ilog2 ?a"
  let ?p = "max (?e - 52) (- 1074)"
  let ?m = "round_half_even (?a / 2 powi ?p)"
  from False have a: "0 < ?a" by simp
  note B = ilog2_bounds [OF a]
  have ab: "\<bar>binary64 q\<bar> = of_int ?m * 2 powi ?p" using False by (rule binary64_abs)
  from B(1) assms max_binary64_less have "(2::rat) powi ?e < 2 powi 1024" by linarith
  then have e: "?e < 1024" by (rule powi_less_imp)
  show ?thesis
  proof (cases "?e = 1023")
    case True
    then have p: "?p = 971" by simp
    have "?a / 2 powi 971 \<le> max_binary64 / 2 powi 971"
      using assms by (intro divide_right_mono) (simp_all add: less_imp_le [OF powi_pos])
    also have "\<dots> = of_int (2 ^ 53 - 1)"
      unfolding max_binary64_powi using powi_pos [of 971] by simp
    finally have "round_half_even (?a / 2 powi 971) \<le> 2 ^ 53 - 1"
      by (rule round_half_even_le)
    then have "(of_int (round_half_even (?a / 2 powi 971)) :: rat) \<le> of_int (2 ^ 53 - 1)"
      by (simp only: of_int_le_iff)
    then have "of_int (round_half_even (?a / 2 powi 971)) * (2::rat) powi 971
        \<le> of_int (2 ^ 53 - 1) * 2 powi 971"
      by (intro mult_right_mono) (simp_all add: less_imp_le [OF powi_pos])
    then show ?thesis unfolding ab p max_binary64_powi by simp
  next
    case False
    with e have e': "?e \<le> 1022" by simp
    then have p970: "?p \<le> 970" by simp
    have pe: "?e - 52 \<le> ?p" by simp
    have "?a / 2 powi ?p \<le> ?a / 2 powi (?e - 52)"
      using powi_mono [OF pe] a by (intro divide_left_mono) (simp_all add: powi_pos)
    also have "\<dots> \<le> 2 powi (?e + 1) / 2 powi (?e - 52)"
      using B(2) by (intro divide_right_mono) (simp_all add: less_imp_le [OF powi_pos])
    also have "\<dots> = 2 powi (?e + 1 - (?e - 52))" by (simp only: powi_diff)
    also have "\<dots> = of_int (2 ^ 53)" by simp
    finally have "?m \<le> 2 ^ 53" by (rule round_half_even_le)
    then have "(of_int ?m :: rat) \<le> of_int (2 ^ 53)" by (simp only: of_int_le_iff)
    then have "of_int ?m * (2::rat) powi ?p \<le> of_int (2 ^ 53) * 2 powi ?p"
      by (intro mult_right_mono) (simp_all add: less_imp_le [OF powi_pos])
    also have "\<dots> \<le> of_int (2 ^ 53) * 2 powi 970"
      using powi_mono [OF p970] by (intro mult_left_mono) simp_all
    also have "\<dots> \<le> max_binary64"
    proof -
      have "(2::rat) powi 971 = 2 powi (1 + 970)" by simp
      also have "\<dots> = 2 * 2 powi 970" unfolding powi_add by simp
      finally have s: "(2::rat) powi 971 = 2 * 2 powi 970" .
      have "(of_int (2 ^ 53) :: rat) \<le> (2 ^ 53 - 1) * 2" by simp
      then have "of_int (2 ^ 53) * (2::rat) powi 970 \<le> ((2 ^ 53 - 1) * 2) * 2 powi 970"
        by (intro mult_right_mono) (simp_all add: less_imp_le [OF powi_pos])
      then show ?thesis unfolding max_binary64_powi s by (simp add: mult.assoc)
    qed
    finally show ?thesis unfolding ab .
  qed
qed

section \<open>Properties of the single-run executor\<close>

lemma fold_snoc_map: "fold (\<lambda>x acc. acc @ [f x]) xs acc = acc @ map f xs"
  by (induction xs arbitrary: acc) simp_all

lemma run_tasks_eq:
  "run_tasks post tasks r eps = eps @ map (\<lambda>(idx, t). run_call post r idx t) (List.enumerate 0 tasks)"
proof -
  have "(\<lambda>(idx, t) acc. acc @ [run_call post r idx t])
        = (\<lambda>x acc. acc @ [(\<lambda>(idx, t). run_call post r idx t) x])"
    by (simp add: fun_eq_iff split: prod.splits)
  then show ?thesis
    unfolding run_tasks_def enumerate_from0_def by (simp add: fold_snoc_map)
qed

lemma fold_run_tasks:
  "fold (run_tasks post tasks) rs eps =
     eps @ concat (map (\<lambda>r. map (\<lambda>(idx, t). run_call post r idx t) (List.enumerate 0 tasks)) rs)"
  by (induction rs arbitrary: eps) (simp_all add: run_tasks_eq)

lemma run_episodes_eq:
  "run_episodes post tasks rep =
     concat (map (\<lambda>r. map (\<lambda>(idx, t). run_call post r idx t) (List.enumerate 0 tasks))
                 [0 ..< nat (max 1 rep)])"
  unfolding run_episodes_def by (simp add: fold_run_tasks)

lemma length_concat_const:
  "(\<And>x. x \<in> set xs \<Longrightarrow> length (f x) = m) \<Longrightarrow> length (concat (map f xs)) = length xs * m"
  by (induction xs) simp_all

lemma nth_concat_blocks:
  "(\<And>k. length (f k) = m) \<Longrightarrow> r < n \<Longrightarrow> i < m \<Longrightarrow>
     concat (map f [0 ..< n]) ! (r * m + i) = f r ! i"
proof (induction n)
  case 0
  then show ?case by simp
next
  case (Suc n)
  have len: "length (concat (map f [0 ..< n])) = n * m"
    using Suc.prems(1) by (simp add: length_concat_const)
  show ?case
  proof (cases "r < n")
    case True
    then have "Suc r \<le> n" by simp
    then have "Suc r * m \<le> n * m" by (rule mult_le_mono1)
    with Suc.prems(3) have "r * m + i < n * m" by simp
    with len True Suc show ?thesis by (simp add: nth_append)
  next
    case False
    with Suc.prems(2) have "r = n" by simp
    with len show ?thesis by (simp add: nth_append)
  qed
qed

lemma length_run_episodes:
  "length (run_episodes post tasks rep) = nat (max 1 rep) * length tasks"
  unfolding run_episodes_eq by (simp add: length_concat_const)

lemma nth_run_episodes:
  assumes "r < nat (max 1 rep)" "idx < length tasks"
  shows "run_episodes post tasks rep ! (r * length tasks + idx) = run_call post r idx (tasks ! idx)"
proof -
  let ?f = "\<lambda>r. map (\<lambda>(idx, t). run_call post r idx t) (List.enumerate 0 tasks)"
  have "concat (map ?f [0 ..< nat (max 1 rep)]) ! (r * length tasks + idx) = ?f r ! idx"
    by (rule nth_concat_blocks) (simp_all add: assms)
  also have "\<dots> = run_call post r idx (tasks ! idx)"
    using assms(2) by (simp add: nth_enumerate_eq)
  finally show ?thesis by (simp add: run_episodes_eq)
qed

lemma episodes_run_eval: "episodes (run_eval post u tasks rep) = run_episodes post tasks rep"
  by (simp add: run_eval_def Let_def)

lemma run_call_keys:
  "repeat_index (run_call post r idx t) = r"
  "task_index (run_call post r idx t) = idx"
  "result_task_id (run_call post r idx t) = task_id t"
  by (simp_all add: run_call_def initial_result_def split: call_outcome.splits)

text \<open>
  C2: a run makes \<open>max(1, repeat)\<close> repetitions, each one over every task in the order of
  the list, and \<open>episodes\<close> holds one result for each pair of a repetition and a task,
  repetition by repetition and, inside a repetition, task by task. For two repetitions
  over the tasks \<open>A\<close> and \<open>B\<close> the order is \<open>A@0, B@0, A@1, B@1\<close>.
\<close>

theorem run_eval_order:
  "map (\<lambda>ep. (repeat_index ep, task_index ep, result_task_id ep)) (episodes (run_eval post u tasks rep))
     = concat (map (\<lambda>r. map (\<lambda>(idx, t). (r, idx, task_id t)) (List.enumerate 0 tasks))
                   [0 ..< nat (max 1 rep)])
   \<and> length (episodes (run_eval post u tasks rep)) = nat (max 1 rep) * length tasks
   \<and> map (\<lambda>ep. (repeat_index ep, task_index ep, result_task_id ep)) (episodes (run_eval post u [A, B] 2))
     = [(0, 0, task_id A), (0, 1, task_id B), (1, 0, task_id A), (1, 1, task_id B)]"
proof -
  have a: "map (\<lambda>ep. (repeat_index ep, task_index ep, result_task_id ep)) (run_episodes post ts rp)
     = concat (map (\<lambda>r. map (\<lambda>(idx, t). (r, idx, task_id t)) (List.enumerate 0 ts))
                   [0 ..< nat (max 1 rp)])" for ts rp
    unfolding run_episodes_eq
    by (simp add: map_concat comp_def case_prod_unfold run_call_keys)
  have b: "[0 ..< 2] = [0, Suc 0]"
    by (simp add: numeral_2_eq_2)
  show ?thesis
    unfolding episodes_run_eval a by (simp add: length_run_episodes b enumerate_simps)
qed


lemma run_call_raised:
  "post r idx t = Raised msg \<Longrightarrow>
     \<not> ok (run_call post r idx t) \<and> error (run_call post r idx t) = Some msg
     \<and> status (run_call post r idx t) = None \<and> elapsed_ms (run_call post r idx t) = None"
  by (simp add: run_call_def initial_result_def)

lemma run_call_returned:
  "post r idx t = Returned c \<Longrightarrow>
     status (run_call post r idx t) = Some (call_status c)
     \<and> elapsed_ms (run_call post r idx t) = Some (call_elapsed_ms c)
     \<and> shape_ok (run_call post r idx t) = Some (fst (validate_actions_shape (call_body c)))
     \<and> error (run_call post r idx t) = None
     \<and> ok (run_call post r idx t) = (call_status c = 200 \<and> fst (validate_actions_shape (call_body c)))"
  by (simp add: run_call_def initial_result_def)

lemma run_call_ok_iff:
  "ok (run_call post r idx t) \<longleftrightarrow>
     (status (run_call post r idx t) = Some 200 \<and> shape_ok (run_call post r idx t) = Some True)"
  by (cases "post r idx t") (simp_all add: run_call_def initial_result_def)

lemma validate_empty_actions:
  "validate_actions_shape (JDict [(''actions'', JList [])]) = (True, ''ok'')"
  by (simp add: validate_actions_shape_def)

text \<open>
  C1, as the code has it: the result of the call for task \<open>idx\<close> in repetition \<open>r\<close> has \<open>ok\<close>
  exactly when its status is 200 and its shape check passed. When the call raises, the
  result has \<open>ok\<close> false and \<open>error\<close> set to \<^verbatim>\<open>str(exc)\<close>, the text of the exception, which is
  empty when the exception carries no message. Whatever the calls do, the run makes all of
  them: the number of results does not depend on the outcomes, and the result at each
  position is the one of its own call.
\<close>

theorem run_eval_call_results:
  assumes "r < nat (max 1 rep)" and "idx < length tasks"
  shows "length (episodes (run_eval post u tasks rep)) = nat (max 1 rep) * length tasks
    \<and> (let ep = episodes (run_eval post u tasks rep) ! (r * length tasks + idx) in
         repeat_index ep = r \<and> task_index ep = idx \<and>
         (ok ep \<longleftrightarrow> (status ep = Some 200 \<and> shape_ok ep = Some True)) \<and>
         (case post r idx (tasks ! idx) of
            Raised msg \<Rightarrow> \<not> ok ep \<and> error ep = Some msg \<and> status ep = None
          | Returned c \<Rightarrow>
              status ep = Some (call_status c)
              \<and> shape_ok ep = Some (fst (validate_actions_shape (call_body c)))
              \<and> ok ep = (call_status c = 200 \<and> fst (validate_actions_shape (call_body c)))
              \<and> error ep = None))"
proof -
  have nth: "episodes (run_eval post u tasks rep) ! (r * length tasks + idx)
      = run_call post r idx (tasks ! idx)"
    unfolding episodes_run_eval using assms by (rule nth_run_episodes)
  have out: "case post r idx (tasks ! idx) of
            Raised msg \<Rightarrow> \<not> ok (run_call post r idx (tasks ! idx))
               \<and> error (run_call post r idx (tasks ! idx)) = Some msg
               \<and> status (run_call post r idx (tasks ! idx)) = None
          | Returned c \<Rightarrow>
              status (run_call post r idx (tasks ! idx)) = Some (call_status c)
              \<and> shape_ok (run_call post r idx (tasks ! idx)) = Some (fst (validate_actions_shape (call_body c)))
              \<and> ok (run_call post r idx (tasks ! idx)) = (call_status c = 200 \<and> fst (validate_actions_shape (call_body c)))
              \<and> error (run_call post r idx (tasks ! idx)) = None"
    by (cases "post r idx (tasks ! idx)") (simp_all add: run_call_raised run_call_returned)
  show ?thesis
    unfolding nth Let_def
    using out run_call_ok_iff [of post r idx "tasks ! idx"]
    by (simp add: episodes_run_eval length_run_episodes run_call_keys)
qed


text \<open>
  C1 as stated has \<open>error\<close> set to a description. A call that times out raises an exception
  without a message, and the result holds the empty text.
\<close>

theorem run_eval_empty_error_counterexample:
  "error (episodes (run_eval (\<lambda>r idx t. Raised []) ''http://127.0.0.1:5000'' [default_task 0] 1) ! 0)
     = Some []
   \<and> \<not> error_described
         (episodes (run_eval (\<lambda>r idx t. Raised []) ''http://127.0.0.1:5000'' [default_task 0] 1) ! 0)"
proof -
  have "episodes (run_eval (\<lambda>r idx t. Raised []) ''http://127.0.0.1:5000'' [default_task 0] 1) ! 0
      = run_call (\<lambda>r idx t. Raised []) 0 0 (default_task 0)"
    unfolding episodes_run_eval
    using nth_run_episodes [of 0 1 0 "[default_task 0]" "\<lambda>r idx t. Raised []"] by simp
  then show ?thesis
    by (simp add: run_call_def initial_result_def error_described_def)
qed

theorem run_eval_call_results_witness:
  "(0::nat) < nat (max 1 1) \<and> (0::nat) < length [default_task 0, default_task 1]
   \<and> (1::nat) < length [default_task 0, default_task 1]
   \<and> length (episodes (run_eval
        (\<lambda>r idx t. if idx = 0 then Raised ''timeout''
                    else Returned \<lparr> call_status = 200, call_elapsed_ms = 12,
                                    call_body = JDict [(''actions'', JList [])] \<rparr>)
        ''http://127.0.0.1:5000'' [default_task 0, default_task 1] 1)) = 2
   \<and> \<not> ok (episodes (run_eval
        (\<lambda>r idx t. if idx = 0 then Raised ''timeout''
                    else Returned \<lparr> call_status = 200, call_elapsed_ms = 12,
                                    call_body = JDict [(''actions'', JList [])] \<rparr>)
        ''http://127.0.0.1:5000'' [default_task 0, default_task 1] 1) ! 0)
   \<and> error (episodes (run_eval
        (\<lambda>r idx t. if idx = 0 then Raised ''timeout''
                    else Returned \<lparr> call_status = 200, call_elapsed_ms = 12,
                                    call_body = JDict [(''actions'', JList [])] \<rparr>)
        ''http://127.0.0.1:5000'' [default_task 0, default_task 1] 1) ! 0) = Some ''timeout''
   \<and> ok (episodes (run_eval
        (\<lambda>r idx t. if idx = 0 then Raised ''timeout''
                    else Returned \<lparr> call_status = 200, call_elapsed_ms = 12,
                                    call_body = JDict [(''actions'', JList [])] \<rparr>)
        ''http://127.0.0.1:5000'' [default_task 0, default_task 1] 1) ! 1)"
proof -
  let ?post = "\<lambda>(r::nat) (idx::nat) (t::task). if idx = 0 then Raised ''timeout''
                    else Returned \<lparr> call_status = 200, call_elapsed_ms = 12,
                                    call_body = JDict [(''actions'', JList [])] \<rparr>"
  let ?ts = "[default_task 0, default_task 1]"
  have h1: "(0::nat) < nat (max 1 1)" by simp
  have h2: "(0::nat) < length ?ts" by simp
  have h3: "(1::nat) < length ?ts" by simp
  note a = run_eval_call_results [OF h1 h2, of ?post "''http://127.0.0.1:5000''"]
  note b = run_eval_call_results [OF h1 h3, of ?post "''http://127.0.0.1:5000''"]
  from a b show ?thesis
    by (simp add: Let_def validate_empty_actions)
qed

lemma ok_count_eq: "ok_count eps = length (filter ok eps)"
  unfolding ok_count_def by (induction eps) simp_all

lemma ok_count_le: "ok_count eps \<le> length eps"
  by (simp add: ok_count_eq)

lemma round_half_even_0: "round_half_even 0 = 0"
  by (simp add: round_half_even_def)

lemma py_round2_0: "py_round2 0 = 0"
  by (simp add: py_round2_def round_half_even_0 binary64_0)

lemma py_round2_near:
  "\<bar>of_int (round_half_even (x * 100)) / 100 - x\<bar> \<le> 1 / 200"
proof -
  have "\<bar>of_int (round_half_even (x * 100)) / 100 - x\<bar>
      = \<bar>of_int (round_half_even (x * 100)) - x * 100\<bar> / 100"
    by (simp add: field_simps abs_if)
  also have "\<dots> \<le> (1 / 2) / 100"
    by (rule divide_right_mono [OF round_half_even_near]) simp
  finally show ?thesis by simp
qed

lemma summary_run_eval: "summary (run_eval post u tasks rep) = summarize (run_episodes post tasks rep)"
  by (simp add: run_eval_def Let_def)

lemma ok_rate_bounds:
  "0 \<le> ok_rate (summarize eps) \<and> ok_rate (summarize eps) \<le> 1"
proof (cases "eps = []")
  case True
  then show ?thesis by (simp add: summarize_def)
next
  case False
  then have pos: "(0::rat) < of_nat (length eps)" by simp
  have "(of_nat (ok_count eps) :: rat) \<le> of_nat (length eps)"
    using ok_count_le [of eps] by (simp only: of_nat_le_iff)
  with pos have "(of_nat (ok_count eps) :: rat) / of_nat (length eps) \<le> 1"
    by (simp add: divide_le_eq_1)
  with False show ?thesis by (simp add: summarize_def)
qed

lemma run_episodes_no_tasks: "run_episodes post [] rep = []"
  by (simp add: run_episodes_eq enumerate_simps)

lemma sum_list_concat_map:
  "sum_list (map g (concat (map f xs))) = (\<Sum>x\<leftarrow>xs. sum_list (map g (f x)))"
  by (induction xs) simp_all

lemma elapsed_or_0_run_call:
  "elapsed_or_0 (run_call post r idx t)
     = (case post r idx t of Raised msg \<Rightarrow> 0 | Returned c \<Rightarrow> call_elapsed_ms c)"
  by (cases "post r idx t") (simp_all add: elapsed_or_0_def run_call_def initial_result_def)

lemma sum_elapsed_run_episodes:
  "sum_list (map elapsed_or_0 (run_episodes post tasks rep))
     = (\<Sum>r\<leftarrow>[0 ..< nat (max 1 rep)]. \<Sum>(idx, t)\<leftarrow>List.enumerate 0 tasks.
          (case post r idx t of Raised msg \<Rightarrow> 0 | Returned c \<Rightarrow> call_elapsed_ms c))"
  unfolding run_episodes_eq sum_list_concat_map
  by (simp add: comp_def case_prod_unfold elapsed_or_0_run_call)

lemma set_run_episodes:
  "ep \<in> set (run_episodes post tasks rep) \<Longrightarrow> \<exists>r idx t. ep = run_call post r idx t"
  unfolding run_episodes_eq by auto

lemma error_no_elapsed:
  "ep \<in> set (run_episodes post tasks rep) \<Longrightarrow> error ep \<noteq> None \<Longrightarrow> elapsed_ms ep = None"
proof -
  assume "ep \<in> set (run_episodes post tasks rep)" and e: "error ep \<noteq> None"
  then obtain r idx t where ep: "ep = run_call post r idx t"
    using set_run_episodes by blast
  show ?thesis
  proof (cases "post r idx t")
    case (Raised msg)
    then show ?thesis unfolding ep by (simp add: run_call_def initial_result_def)
  next
    case (Returned c)
    with e show ?thesis unfolding ep by (simp add: run_call_def initial_result_def)
  qed
qed

text \<open>
  C3: in the summary of a run, \<open>total_calls\<close> is the number of episodes, \<open>ok_calls\<close> the
  number of episodes with \<open>ok\<close> true, and \<open>ok_rate\<close> their quotient, which lies between 0
  and 1. A run with no episode has \<open>ok_rate\<close> and \<open>avg_latency_ms\<close> equal to 0: nothing is
  divided by zero.
\<close>

theorem run_eval_summary:
  "total_calls (summary (run_eval post u tasks rep)) = length (episodes (run_eval post u tasks rep))
   \<and> ok_calls (summary (run_eval post u tasks rep))
       = length (filter ok (episodes (run_eval post u tasks rep)))
   \<and> (episodes (run_eval post u tasks rep) \<noteq> [] \<longrightarrow>
        ok_rate (summary (run_eval post u tasks rep))
          = of_nat (ok_calls (summary (run_eval post u tasks rep)))
            / of_nat (total_calls (summary (run_eval post u tasks rep))))
   \<and> 0 \<le> ok_rate (summary (run_eval post u tasks rep))
   \<and> ok_rate (summary (run_eval post u tasks rep)) \<le> 1
   \<and> (episodes (run_eval post u tasks rep) = [] \<longrightarrow>
        ok_rate (summary (run_eval post u tasks rep)) = 0
        \<and> avg_latency_ms (summary (run_eval post u tasks rep)) = 0)"
proof -
  let ?eps = "run_episodes post tasks rep"
  have a: "total_calls (summarize ?eps) = length ?eps"
    and b: "ok_calls (summarize ?eps) = length (filter ok ?eps)"
    by (simp_all add: summarize_def ok_count_eq)
  have c: "?eps \<noteq> [] \<longrightarrow> ok_rate (summarize ?eps)
       = of_nat (ok_calls (summarize ?eps)) / of_nat (total_calls (summarize ?eps))"
    by (simp add: summarize_def)
  have d: "?eps = [] \<longrightarrow> ok_rate (summarize ?eps) = 0 \<and> avg_latency_ms (summarize ?eps) = 0"
    by (simp add: summarize_def avg_latency_def py_round2_0)
  show ?thesis
    unfolding summary_run_eval episodes_run_eval
    using a b c d ok_rate_bounds [of ?eps] by blast
qed

theorem run_eval_summary_witness:
  "episodes (run_eval (\<lambda>r idx t. Raised ''refused'') ''http://127.0.0.1:5000'' [] 3) = []
   \<and> ok_rate (summary (run_eval (\<lambda>r idx t. Raised ''refused'') ''http://127.0.0.1:5000'' [] 3)) = 0
   \<and> avg_latency_ms (summary (run_eval (\<lambda>r idx t. Raised ''refused'') ''http://127.0.0.1:5000'' [] 3)) = 0
   \<and> episodes (run_eval
        (\<lambda>r idx t. if idx = 1 then Raised ''timeout''
                    else Returned \<lparr> call_status = 200, call_elapsed_ms = 10 + 6 * int idx,
                                    call_body = JDict [(''actions'', JList [])] \<rparr>)
        ''http://127.0.0.1:5000'' [default_task 0, default_task 1, default_task 2] 1) \<noteq> []
   \<and> total_calls (summary (run_eval
        (\<lambda>r idx t. if idx = 1 then Raised ''timeout''
                    else Returned \<lparr> call_status = 200, call_elapsed_ms = 10 + 6 * int idx,
                                    call_body = JDict [(''actions'', JList [])] \<rparr>)
        ''http://127.0.0.1:5000'' [default_task 0, default_task 1, default_task 2] 1)) = 3
   \<and> ok_calls (summary (run_eval
        (\<lambda>r idx t. if idx = 1 then Raised ''timeout''
                    else Returned \<lparr> call_status = 200, call_elapsed_ms = 10 + 6 * int idx,
                                    call_body = JDict [(''actions'', JList [])] \<rparr>)
        ''http://127.0.0.1:5000'' [default_task 0, default_task 1, default_task 2] 1)) = 2
   \<and> ok_rate (summary (run_eval
        (\<lambda>r idx t. if idx = 1 then Raised ''timeout''
                    else Returned \<lparr> call_status = 200, call_elapsed_ms = 10 + 6 * int idx,
                                    call_body = JDict [(''actions'', JList [])] \<rparr>)
        ''http://127.0.0.1:5000'' [default_task 0, default_task 1, default_task 2] 1)) = 2 / 3"
proof -
  let ?post = "\<lambda>(r::nat) (idx::nat) (t::task). if idx = 1 then Raised ''timeout''
                    else Returned \<lparr> call_status = 200, call_elapsed_ms = 10 + 6 * int idx,
                                    call_body = JDict [(''actions'', JList [])] \<rparr>"
  let ?ts = "[default_task 0, default_task 1, default_task 2]"
  have e0: "episodes (run_eval (\<lambda>r idx t. Raised ''refused'') ''http://127.0.0.1:5000'' [] 3) = []"
    by (simp add: episodes_run_eval run_episodes_no_tasks)
  have e1: "length (filter ok (episodes (run_eval ?post ''http://127.0.0.1:5000'' ?ts 1))) = 2"
    by (simp add: episodes_run_eval run_episodes_eq enumerate_simps run_call_def
        initial_result_def validate_empty_actions)
  have e2: "length (episodes (run_eval ?post ''http://127.0.0.1:5000'' ?ts 1)) = 3"
    by (simp add: episodes_run_eval length_run_episodes)
  from e2 have e3: "episodes (run_eval ?post ''http://127.0.0.1:5000'' ?ts 1) \<noteq> []"
    by auto
  note a = run_eval_summary [of "\<lambda>r idx t. Raised ''refused''" "''http://127.0.0.1:5000''" "[]" 3]
  note b = run_eval_summary [of ?post "''http://127.0.0.1:5000''" ?ts 1]
  from a e0 have "ok_rate (summary (run_eval (\<lambda>r idx t. Raised ''refused'') ''http://127.0.0.1:5000'' [] 3)) = 0
   \<and> avg_latency_ms (summary (run_eval (\<lambda>r idx t. Raised ''refused'') ''http://127.0.0.1:5000'' [] 3)) = 0"
    by blast
  moreover from b e1 e2 e3 have "total_calls (summary (run_eval ?post ''http://127.0.0.1:5000'' ?ts 1)) = 3
    \<and> ok_calls (summary (run_eval ?post ''http://127.0.0.1:5000'' ?ts 1)) = 2
    \<and> ok_rate (summary (run_eval ?post ''http://127.0.0.1:5000'' ?ts 1)) = 2 / 3"
    by simp
  ultimately show ?thesis using e0 e3 by blast
qed

lemma sum_list_abs_bound:
  "0 \<le> M \<Longrightarrow> \<forall>x \<in> set xs. \<bar>of_int x\<bar> \<le> (M::rat) \<Longrightarrow>
     \<bar>of_int (sum_list xs)\<bar> \<le> of_nat (length xs) * M"
proof (induction xs)
  case Nil
  then show ?case by simp
next
  case (Cons x xs)
  then have "\<bar>of_int x\<bar> \<le> M" and "\<bar>of_int (sum_list xs)\<bar> \<le> of_nat (length xs) * M"
    by simp_all
  then have "\<bar>of_int x + of_int (sum_list xs)\<bar> \<le> M + of_nat (length xs) * M"
    by linarith
  then show ?case by (simp add: algebra_simps)
qed

lemma mean_abs_bound:
  assumes "xs \<noteq> []" and "0 \<le> M" and "\<forall>x \<in> set xs. \<bar>of_int x\<bar> \<le> (M::rat)"
  shows "\<bar>of_int (sum_list xs) / of_nat (length xs)\<bar> \<le> M"
proof -
  from assms(1) have pos: "(0::rat) < of_nat (length xs)" by simp
  have "\<bar>of_int (sum_list xs) / of_nat (length xs)\<bar>
      = \<bar>of_int (sum_list xs) :: rat\<bar> / of_nat (length xs)"
    by (simp only: abs_divide abs_of_nat)
  also have "\<dots> \<le> (of_nat (length xs) * M) / of_nat (length xs)"
    using sum_list_abs_bound [OF assms(2,3)] pos by (intro divide_right_mono) simp_all
  also have "\<dots> = M" using pos by simp
  finally show ?thesis .
qed

lemma max_binary64_nonneg: "0 \<le> max_binary64"
  by (simp add: max_binary64_def)

lemma elapsed_in_range:
  assumes "\<forall>r idx t c. post r idx t = Returned c \<longrightarrow> \<bar>of_int (call_elapsed_ms c)\<bar> \<le> max_binary64"
  shows "\<forall>x \<in> set (map elapsed_or_0 (run_episodes post tasks rep)). \<bar>of_int x\<bar> \<le> max_binary64"
proof
  fix x assume "x \<in> set (map elapsed_or_0 (run_episodes post tasks rep))"
  then obtain ep where ep: "ep \<in> set (run_episodes post tasks rep)" and x: "x = elapsed_or_0 ep"
    by auto
  from ep obtain r idx t where "ep = run_call post r idx t"
    using set_run_episodes by blast
  then have x': "x = (case post r idx t of Raised msg \<Rightarrow> 0 | Returned c \<Rightarrow> call_elapsed_ms c)"
    unfolding x by (simp only: elapsed_or_0_run_call)
  show "\<bar>of_int x\<bar> \<le> max_binary64"
  proof (cases "post r idx t")
    case (Raised msg)
    then show ?thesis unfolding x' by (simp add: max_binary64_nonneg)
  next
    case (Returned c)
    with assms show ?thesis unfolding x' by simp
  qed
qed

text \<open>
  C10: \<open>avg_latency_ms\<close> is the mean of the elapsed time over all the episodes, the failed
  ones too: the sum runs over every call of the run, a call that raised has no \<open>elapsed_ms\<close>
  and counts for 0, and the divisor is the number of episodes. The mean is the float that
  the division gives, and it is rounded to two decimal places before it is stored: the
  stored value is the float of a whole number of hundredths that is at most half a
  hundredth away from the mean. The elapsed times are integer parts of floats, and the
  division does not overflow.
\<close>

theorem run_eval_avg_latency:
  assumes "\<forall>r idx t c. post r idx t = Returned c \<longrightarrow> \<bar>of_int (call_elapsed_ms c)\<bar> \<le> max_binary64"
  shows "(episodes (run_eval post u tasks rep) \<noteq> [] \<longrightarrow>
      avg_latency_ms (summary (run_eval post u tasks rep))
        = py_round2 (binary64
            (of_int (sum_list (map elapsed_or_0 (episodes (run_eval post u tasks rep))))
             / of_nat (length (episodes (run_eval post u tasks rep))))))
   \<and> sum_list (map elapsed_or_0 (episodes (run_eval post u tasks rep)))
       = (\<Sum>r\<leftarrow>[0 ..< nat (max 1 rep)]. \<Sum>(idx, t)\<leftarrow>List.enumerate 0 tasks.
            (case post r idx t of Raised msg \<Rightarrow> 0 | Returned c \<Rightarrow> call_elapsed_ms c))
   \<and> (\<forall>ep \<in> set (episodes (run_eval post u tasks rep)).
         (elapsed_ms ep = None \<longrightarrow> elapsed_or_0 ep = 0)
         \<and> (error ep \<noteq> None \<longrightarrow> elapsed_ms ep = None))
   \<and> (\<exists>k::int. avg_latency_ms (summary (run_eval post u tasks rep)) = binary64 (of_int k / 100)
         \<and> \<bar>of_int k / 100 - avg_latency (episodes (run_eval post u tasks rep))\<bar> \<le> 1 / 200)
   \<and> \<bar>avg_latency (episodes (run_eval post u tasks rep))\<bar> \<le> max_binary64"
proof -
  let ?eps = "run_episodes post tasks rep"
  have a: "?eps \<noteq> [] \<longrightarrow> avg_latency_ms (summarize ?eps)
      = py_round2 (binary64 (of_int (sum_list (map elapsed_or_0 ?eps)) / of_nat (length ?eps)))"
    by (simp add: summarize_def avg_latency_def)
  have c: "\<forall>ep \<in> set ?eps. (elapsed_ms ep = None \<longrightarrow> elapsed_or_0 ep = 0)
         \<and> (error ep \<noteq> None \<longrightarrow> elapsed_ms ep = None)"
    using error_no_elapsed [of _ post tasks rep] by (auto simp: elapsed_or_0_def)
  have d: "\<exists>k::int. avg_latency_ms (summarize ?eps) = binary64 (of_int k / 100)
         \<and> \<bar>of_int k / 100 - avg_latency ?eps\<bar> \<le> 1 / 200"
  proof (intro exI conjI)
    show "avg_latency_ms (summarize ?eps)
        = binary64 (of_int (round_half_even (avg_latency ?eps * 100)) / 100)"
      by (simp add: summarize_def py_round2_def)
    show "\<bar>of_int (round_half_even (avg_latency ?eps * 100)) / 100 - avg_latency ?eps\<bar> \<le> 1 / 200"
      by (rule py_round2_near)
  qed
  have e: "\<bar>avg_latency ?eps\<bar> \<le> max_binary64"
  proof (cases "?eps = []")
    case True
    then show ?thesis by (simp add: avg_latency_def max_binary64_nonneg)
  next
    case False
    then have ne: "map elapsed_or_0 ?eps \<noteq> []" by simp
    have "\<bar>of_int (sum_list (map elapsed_or_0 ?eps)) / of_nat (length (map elapsed_or_0 ?eps))\<bar>
        \<le> max_binary64"
      using ne max_binary64_nonneg elapsed_in_range [OF assms] by (rule mean_abs_bound)
    then have "\<bar>binary64 (of_int (sum_list (map elapsed_or_0 ?eps)) / of_nat (length ?eps))\<bar>
        \<le> max_binary64"
      using binary64_in_range by simp
    with False show ?thesis by (simp add: avg_latency_def)
  qed
  show ?thesis
    unfolding summary_run_eval episodes_run_eval
    using a sum_elapsed_run_episodes [of post tasks rep] c d e by blast
qed

theorem run_eval_avg_latency_witness:
  "episodes (run_eval
        (\<lambda>r idx t. if r = 0 then Returned \<lparr> call_status = 200, call_elapsed_ms = 1,
                                              call_body = JDict [(''actions'', JList [])] \<rparr>
                    else Raised [])
        ''http://127.0.0.1:5000'' [default_task 0] 40) \<noteq> []
   \<and> length (episodes (run_eval
        (\<lambda>r idx t. if r = 0 then Returned \<lparr> call_status = 200, call_elapsed_ms = 1,
                                              call_body = JDict [(''actions'', JList [])] \<rparr>
                    else Raised [])
        ''http://127.0.0.1:5000'' [default_task 0] 40)) = 40
   \<and> sum_list (map elapsed_or_0 (episodes (run_eval
        (\<lambda>r idx t. if r = 0 then Returned \<lparr> call_status = 200, call_elapsed_ms = 1,
                                              call_body = JDict [(''actions'', JList [])] \<rparr>
                    else Raised [])
        ''http://127.0.0.1:5000'' [default_task 0] 40))) = 1
   \<and> avg_latency_ms (summary (run_eval
        (\<lambda>r idx t. if r = 0 then Returned \<lparr> call_status = 200, call_elapsed_ms = 1,
                                              call_body = JDict [(''actions'', JList [])] \<rparr>
                    else Raised [])
        ''http://127.0.0.1:5000'' [default_task 0] 40)) = 1080863910568919 / 2 ^ 55
   \<and> binary64 (3 / 100) = 1080863910568919 / 2 ^ 55"
proof -
  let ?post = "\<lambda>(r::nat) (idx::nat) (t::task).
      if r = 0 then Returned \<lparr> call_status = 200, call_elapsed_ms = 1,
                                call_body = JDict [(''actions'', JList [])] \<rparr>
      else Raised []"
  let ?ts = "[default_task 0]"
  let ?R = "run_eval ?post ''http://127.0.0.1:5000'' ?ts 40"
  have h: "\<forall>r idx t c. ?post r idx t = Returned c \<longrightarrow> \<bar>of_int (call_elapsed_ms c)\<bar> \<le> max_binary64"
    by (auto simp: max_binary64_def split: if_splits)
  have e2: "length (episodes ?R) = 40"
    by (simp add: episodes_run_eval length_run_episodes)
  from e2 have e3: "episodes ?R \<noteq> []" by auto
  have r: "py_round2 (binary64 (1 / 40)) = 1080863910568919 / 2 ^ 55" by code_simp
  have r': "binary64 (3 / 100) = 1080863910568919 / 2 ^ 55" by code_simp
  note a = run_eval_avg_latency [OF h, of "''http://127.0.0.1:5000''" ?ts 40]
  have ev: "(\<Sum>r\<leftarrow>[0 ..< nat (max 1 40)]. \<Sum>(idx, t)\<leftarrow>List.enumerate 0 ?ts.
            (case ?post r idx t of Raised msg \<Rightarrow> 0 | Returned c \<Rightarrow> call_elapsed_ms c)) = 1"
    by code_simp
  have s: "sum_list (map elapsed_or_0 (episodes ?R)) = 1"
    using a [THEN conjunct2, THEN conjunct1] unfolding ev .
  from a [THEN conjunct1] e3 have "avg_latency_ms (summary ?R)
        = py_round2 (binary64 (of_int (sum_list (map elapsed_or_0 (episodes ?R)))
                               / of_nat (length (episodes ?R))))"
    by (rule mp)
  then have "avg_latency_ms (summary ?R) = 1080863910568919 / 2 ^ 55"
    unfolding s e2 using r by simp
  with e2 e3 s r' show ?thesis by blast
qed

section \<open>Properties of the shape validator\<close>

lemma digit_char_inj: "a < 10 \<Longrightarrow> b < 10 \<Longrightarrow> digit_char a = digit_char b \<Longrightarrow> a = b"
  unfolding digit_char_def
  by (simp add: less_Suc_eq numeral_eq_Suc nth_Cons') (auto split: if_splits)

lemma digit_char_not_bracket: "d < 10 \<Longrightarrow> digit_char d \<noteq> CHR '']''"
  unfolding digit_char_def
  by (simp add: less_Suc_eq numeral_eq_Suc nth_Cons') (auto split: if_splits)

lemma show_nat_nonempty: "show_nat n \<noteq> []"
  by (subst show_nat.simps) simp

lemma show_nat_no_bracket: "CHR '']'' \<notin> set (show_nat n)"
proof (induction n rule: show_nat.induct)
  case (1 n)
  show ?case
  proof (cases "n < 10")
    case True
    then show ?thesis
      by (subst show_nat.simps) (simp add: digit_char_not_bracket [symmetric, of n] digit_char_not_bracket)
  next
    case False
    have "n mod 10 < 10" by simp
    then have "digit_char (n mod 10) \<noteq> CHR '']''" by (rule digit_char_not_bracket)
    with False "1.IH" show ?thesis
      by (subst show_nat.simps) auto
  qed
qed

lemma show_nat_inj: "show_nat m = show_nat n \<Longrightarrow> m = n"
proof (induction m arbitrary: n rule: show_nat.induct)
  case (1 m)
  show ?case
  proof (cases "m < 10")
    case True
    then have sm: "show_nat m = [digit_char m]" by (subst show_nat.simps) simp
    show ?thesis
    proof (cases "n < 10")
      case nl: True
      then have "show_nat n = [digit_char n]" by (subst show_nat.simps) simp
      with sm "1.prems" have "digit_char m = digit_char n" by simp
      with True nl show ?thesis by (rule digit_char_inj)
    next
      case False
      then have "show_nat n = show_nat (n div 10) @ [digit_char (n mod 10)]"
        by (subst show_nat.simps) simp
      with sm "1.prems" have "show_nat (n div 10) = []" by simp
      with show_nat_nonempty show ?thesis by blast
    qed
  next
    case False
    then have sm: "show_nat m = show_nat (m div 10) @ [digit_char (m mod 10)]"
      by (subst show_nat.simps) simp
    show ?thesis
    proof (cases "n < 10")
      case True
      then have "show_nat n = [digit_char n]" by (subst show_nat.simps) simp
      with sm "1.prems" have "show_nat (m div 10) = []" by simp
      with show_nat_nonempty show ?thesis by blast
    next
      case nl: False
      then have "show_nat n = show_nat (n div 10) @ [digit_char (n mod 10)]"
        by (subst show_nat.simps) simp
      with sm "1.prems" have a: "show_nat (m div 10) = show_nat (n div 10)"
        and b: "digit_char (m mod 10) = digit_char (n mod 10)" by simp_all
      from "1.IH" [OF False a] have "m div 10 = n div 10" .
      moreover from b have "m mod 10 = n mod 10" by (intro digit_char_inj) simp_all
      ultimately show ?thesis by (metis div_mult_mod_eq)
    qed
  qed
qed

lemma show_nat_prefix_inj:
  assumes "show_nat i @ CHR '']'' # s = show_nat j @ CHR '']'' # t"
  shows "i = j"
proof -
  have tw: "takeWhile (\<lambda>c. c \<noteq> CHR '']'') (show_nat n @ CHR '']'' # r) = show_nat n" for n r
  proof -
    have "\<forall>x \<in> set (show_nat n). x \<noteq> CHR '']''"
      using show_nat_no_bracket [of n] by blast
    then show ?thesis by (simp add: takeWhile_append2)
  qed
  from assms have "takeWhile (\<lambda>c. c \<noteq> CHR '']'') (show_nat i @ CHR '']'' # s)
      = takeWhile (\<lambda>c. c \<noteq> CHR '']'') (show_nat j @ CHR '']'' # t)" by simp
  then have "show_nat i = show_nat j" by (simp only: tw)
  then show ?thesis by (rule show_nat_inj)
qed

lemma offending_msg_inj: "offending_msg i a = offending_msg j b \<Longrightarrow> i = j"
  unfolding offending_msg_def
  by (auto split: if_splits dest: show_nat_prefix_inj show_nat_inj)

lemma check_actions_eq:
  "check_actions idx acts =
     (if list_all action_ok acts then (True, ''ok'')
      else (False, offending_msg (idx + length (takeWhile action_ok acts))
                     (acts ! length (takeWhile action_ok acts))))"
  by (induction acts arbitrary: idx) (auto simp: action_ok_def offending_msg_def)

lemma first_offender:
  "\<not> list_all action_ok acts \<Longrightarrow>
     length (takeWhile action_ok acts) < length acts
     \<and> \<not> action_ok (acts ! length (takeWhile action_ok acts))"
  by (induction acts) auto

text \<open>
  C4, as the code has it: the validator answers \<open>(True, ''ok'')\<close> exactly for an object whose
  \<open>actions\<close> is a list of objects, each with a \<open>type\<close> that is absent, \<open>null\<close> or a string.
  For a value that is not an object the message names its type; for an object whose
  \<open>actions\<close> is missing or no list the message is fixed; otherwise the message is the one
  of the first element that fails, and it determines the index of that element.
\<close>

theorem validate_actions_shape_spec:
  "(validate_actions_shape p = (True, ''ok'') \<longleftrightarrow> well_shaped p)
   \<and> (\<not> is_dict p \<longrightarrow>
        validate_actions_shape p = (False, ''response is not an object ('' @ type_name p @ '')''))
   \<and> (is_dict p \<and> \<not> is_list (dict_get p ''actions'') \<longrightarrow>
        validate_actions_shape p = (False, ''missing or invalid 'actions' list''))
   \<and> (is_dict p \<and> dict_get p ''actions'' = JList acts \<and> \<not> list_all action_ok acts \<longrightarrow>
        length (takeWhile action_ok acts) < length acts
        \<and> \<not> action_ok (acts ! length (takeWhile action_ok acts))
        \<and> validate_actions_shape p
            = (False, offending_msg (length (takeWhile action_ok acts))
                        (acts ! length (takeWhile action_ok acts))))
   \<and> (offending_msg i a = offending_msg j b \<longrightarrow> i = j)"
proof -
  have a: "validate_actions_shape p = (True, ''ok'') \<longleftrightarrow> well_shaped p"
    unfolding validate_actions_shape_def well_shaped_def
    by (cases "dict_get p ''actions''") (simp_all add: check_actions_eq)
  have b: "\<not> is_dict p \<longrightarrow>
        validate_actions_shape p = (False, ''response is not an object ('' @ type_name p @ '')'')"
    by (simp add: validate_actions_shape_def)
  have c: "is_dict p \<and> \<not> is_list (dict_get p ''actions'') \<longrightarrow>
        validate_actions_shape p = (False, ''missing or invalid 'actions' list'')"
    unfolding validate_actions_shape_def
    by (cases "dict_get p ''actions''") simp_all
  have d: "is_dict p \<and> dict_get p ''actions'' = JList acts \<and> \<not> list_all action_ok acts \<longrightarrow>
        length (takeWhile action_ok acts) < length acts
        \<and> \<not> action_ok (acts ! length (takeWhile action_ok acts))
        \<and> validate_actions_shape p
            = (False, offending_msg (length (takeWhile action_ok acts))
                        (acts ! length (takeWhile action_ok acts)))"
    using first_offender [of acts]
    by (simp add: validate_actions_shape_def check_actions_eq)
  have e: "offending_msg i a = offending_msg j b \<longrightarrow> i = j"
    using offending_msg_inj by blast
  from a b c d e show ?thesis by blast
qed

text \<open>
  C4 as stated asks that a \<open>type\<close> which is present be a string. An action whose \<open>type\<close> is
  \<open>null\<close> has the key and no string under it, and the validator accepts it.
\<close>

theorem validate_null_type_counterexample:
  "validate_actions_shape (JDict [(''actions'', JList [JDict [(''type'', JNull)]])]) = (True, ''ok'')
   \<and> \<not> strictly_shaped (JDict [(''actions'', JList [JDict [(''type'', JNull)]])])"
  by (simp add: validate_actions_shape_def strictly_shaped_def)

lemma show_nat_1: "show_nat (Suc 0) = ''1''"
  by (subst show_nat.simps) (simp add: digit_char_def)

theorem validate_actions_shape_spec_witness:
  "\<not> is_dict (JList [])
   \<and> validate_actions_shape (JList []) = (False, ''response is not an object (list)'')
   \<and> is_dict (JDict [(''status'', JStr ''healthy'')])
   \<and> \<not> is_list (dict_get (JDict [(''status'', JStr ''healthy'')]) ''actions'')
   \<and> validate_actions_shape (JDict [(''status'', JStr ''healthy'')])
       = (False, ''missing or invalid 'actions' list'')
   \<and> \<not> list_all action_ok [JDict [(''type'', JStr ''click'')], JInt 3]
   \<and> validate_actions_shape (JDict [(''actions'', JList [JDict [(''type'', JStr ''click'')], JInt 3])])
       = (False, ''actions[1] is not an object'')
   \<and> well_shaped (JDict [(''actions'', JList [JDict [(''type'', JStr ''click'')], JDict [(''type'', JNull)]])])
   \<and> validate_actions_shape (JDict [(''actions'', JList [JDict [(''type'', JStr ''click'')], JDict [(''type'', JNull)]])])
       = (True, ''ok'')"
proof -
  note a = validate_actions_shape_spec [of "JList []" "[]" 0 JNull 0 JNull]
  note b = validate_actions_shape_spec [of "JDict [(''status'', JStr ''healthy'')]" "[]" 0 JNull 0 JNull]
  note c = validate_actions_shape_spec
    [of "JDict [(''actions'', JList [JDict [(''type'', JStr ''click'')], JInt 3])]"
        "[JDict [(''type'', JStr ''click'')], JInt 3]" 0 JNull 0 JNull]
  note d = validate_actions_shape_spec
    [of "JDict [(''actions'', JList [JDict [(''type'', JStr ''click'')], JDict [(''type'', JNull)]])]"
        "[]" 0 JNull 0 JNull]
  have h1: "\<not> is_dict (JList [])" by simp
  have h2: "is_dict (JDict [(''status'', JStr ''healthy'')])
     \<and> \<not> is_list (dict_get (JDict [(''status'', JStr ''healthy'')]) ''actions'')" by simp
  have h3: "\<not> list_all action_ok [JDict [(''type'', JStr ''click'')], JInt 3]"
    by (simp add: action_ok_def)
  have h3': "length (takeWhile action_ok [JDict [(''type'', JStr ''click'')], JInt 3]) = 1"
    by (simp add: action_ok_def)
  have h4: "well_shaped (JDict [(''actions'', JList [JDict [(''type'', JStr ''click'')], JDict [(''type'', JNull)]])])"
    by (simp add: well_shaped_def action_ok_def)
  from a h1 have r1: "validate_actions_shape (JList []) = (False, ''response is not an object (list)'')"
    by simp
  from b h2 have r2: "validate_actions_shape (JDict [(''status'', JStr ''healthy'')])
       = (False, ''missing or invalid 'actions' list'')"
    by blast
  from c h3 have r3: "validate_actions_shape (JDict [(''actions'', JList [JDict [(''type'', JStr ''click'')], JInt 3])])
       = (False, ''actions[1] is not an object'')"
    unfolding h3' by (simp add: offending_msg_def show_nat_1)
  from d h4 have r4: "validate_actions_shape (JDict [(''actions'', JList [JDict [(''type'', JStr ''click'')], JDict [(''type'', JNull)]])])
       = (True, ''ok'')"
    by blast
  from h1 h2 h3 h4 r1 r2 r3 r4 show ?thesis by blast
qed

section \<open>Properties of the task source\<close>

lemma task_of_item_ok:
  "step_index_ok B item \<Longrightarrow> \<exists>t. task_of_item B i item = Inr t"
  by (auto simp: step_index_ok_def task_of_item_def split: sum.splits)

lemma task_of_item_fail:
  "\<not> step_index_ok B item \<Longrightarrow> \<exists>e. task_of_item B i item = Inl e"
  by (auto simp: step_index_ok_def task_of_item_def split: sum.splits)

lemma load_items_length:
  "list_all (step_index_ok B) (filter is_dict data) \<Longrightarrow>
     \<exists>ts. load_items B i data acc = Inr ts \<and> length ts = length acc + length (filter is_dict data)"
proof (induction data arbitrary: i acc)
  case Nil
  then show ?case by simp
next
  case (Cons item rest)
  show ?case
  proof (cases "is_dict item")
    case False
    with Cons show ?thesis by simp
  next
    case True
    with Cons.prems have ok: "step_index_ok B item"
      and rest: "list_all (step_index_ok B) (filter is_dict rest)" by simp_all
    from ok obtain t where t: "task_of_item B i item = Inr t"
      using task_of_item_ok by blast
    from Cons.IH [OF rest, of "Suc i" "acc @ [t]"] True t show ?thesis by simp
  qed
qed

lemma load_items_fail:
  "\<not> list_all (step_index_ok B) (filter is_dict data) \<Longrightarrow> \<exists>e. load_items B i data acc = Inl e"
proof (induction data arbitrary: i acc)
  case Nil
  then show ?case by simp
next
  case (Cons item rest)
  show ?case
  proof (cases "is_dict item")
    case False
    with Cons show ?thesis by simp
  next
    case True
    show ?thesis
    proof (cases "step_index_ok B item")
      case ok: True
      then obtain t where t: "task_of_item B i item = Inr t"
        using task_of_item_ok by blast
      from ok True Cons.prems have "\<not> list_all (step_index_ok B) (filter is_dict rest)" by simp
      from Cons.IH [OF this, of "Suc i" "acc @ [t]"] True t show ?thesis by simp
    next
      case False
      then obtain e where "task_of_item B i item = Inl e"
        using task_of_item_fail by blast
      with True show ?thesis by simp
    qed
  qed
qed

lemma load_items_prefix:
  "load_items B i data acc = Inr ts \<Longrightarrow> \<exists>ts'. ts = acc @ ts'"
proof (induction data arbitrary: i acc)
  case Nil
  then show ?case by simp
next
  case (Cons item rest)
  show ?case
  proof (cases "is_dict item")
    case False
    with Cons show ?thesis by simp
  next
    case True
    with Cons.prems obtain t where t: "task_of_item B i item = Inr t"
      and r: "load_items B (Suc i) rest (acc @ [t]) = Inr ts"
      by (auto split: sum.splits)
    from Cons.IH [OF r] show ?thesis by auto
  qed
qed

lemma load_items_nth:
  "load_items B i data acc = Inr ts \<Longrightarrow> j < length data \<Longrightarrow> is_dict (data ! j) \<Longrightarrow>
     task_of_item B (i + j) (data ! j) = Inr (ts ! (length acc + length (filter is_dict (take j data))))"
proof (induction data arbitrary: i acc j)
  case Nil
  then show ?case by simp
next
  case (Cons item rest)
  show ?case
  proof (cases j)
    case 0
    with Cons.prems have d: "is_dict item" by simp
    with Cons.prems obtain t where t: "task_of_item B i item = Inr t"
      and r: "load_items B (Suc i) rest (acc @ [t]) = Inr ts"
      by (auto split: sum.splits)
    from load_items_prefix [OF r] obtain ts' where "ts = (acc @ [t]) @ ts'" by blast
    then have "ts ! length acc = t" by simp
    with 0 t show ?thesis by simp
  next
    case (Suc k)
    with Cons.prems have k: "k < length rest" and dk: "is_dict (rest ! k)" by simp_all
    show ?thesis
    proof (cases "is_dict item")
      case False
      with Cons.prems have r: "load_items B (Suc i) rest acc = Inr ts" by simp
      from Cons.IH [OF r k dk] False Suc show ?thesis by simp
    next
      case True
      with Cons.prems obtain t where t: "task_of_item B i item = Inr t"
        and r: "load_items B (Suc i) rest (acc @ [t]) = Inr ts"
        by (auto split: sum.splits)
      from Cons.IH [OF r k dk] True Suc show ?thesis by simp
    qed
  qed
qed

lemma load_tasks_file:
  "p \<noteq> [] \<Longrightarrow> read_json p = Inr raw \<Longrightarrow> tasks_data raw = Inr data \<Longrightarrow>
     load_tasks B read_json (Some p) n = load_items B 0 data []"
  by (simp add: load_tasks_def)


lemma tasks_data_cases:
  "raw = JList data \<or> (is_dict raw \<and> dict_get raw ''tasks'' = JList data) \<Longrightarrow> tasks_data raw = Inr data"
  by (auto simp: tasks_data_def)

lemma show_nat_0: "show_nat 0 = ''0''"
  by (subst show_nat.simps) (simp add: digit_char_def)

text \<open>
  C6, as the code has it: for a file whose list is \<open>data\<close>, when the conversion
  \<^verbatim>\<open>int(step_index or 0)\<close> succeeds for every entry that is an object (the value converted
  is the entry's \<open>step_index\<close>, and 0 in place of a missing or false one), \<open>load_tasks\<close>
  returns as many tasks as \<open>data\<close> has objects, the other entries being passed over without
  a task and without an error. When the conversion fails for an object, \<open>load_tasks\<close>
  raises.
\<close>

theorem load_tasks_skips_non_objects:
  assumes "p \<noteq> []" and "read_json p = Inr raw"
    and "raw = JList data \<or> (is_dict raw \<and> dict_get raw ''tasks'' = JList data)"
  shows "(list_all (step_index_ok B) (filter is_dict data) \<longrightarrow>
           (\<exists>ts. load_tasks B read_json (Some p) n = Inr ts
                 \<and> length ts = length (filter is_dict data)))
       \<and> (\<not> list_all (step_index_ok B) (filter is_dict data) \<longrightarrow>
           (\<exists>e. load_tasks B read_json (Some p) n = Inl e))"
proof -
  from assms(3) have d: "tasks_data raw = Inr data" by (rule tasks_data_cases)
  have eq: "load_tasks B read_json (Some p) n = load_items B 0 data []"
    using assms(1,2) d by (rule load_tasks_file)
  show ?thesis
    unfolding eq
    using load_items_length [of B data 0 "[]"] load_items_fail [of B data 0 "[]"]
    by auto
qed

text \<open>
  C6 as stated promises the count for every file. A list of two entries, one of them an
  object whose \<open>step_index\<close> is a list, has fewer objects than entries, and \<open>load_tasks\<close>
  raises \<open>TypeError\<close> on it.
\<close>

theorem load_tasks_bad_step_index_counterexample:
  "length (filter is_dict [JDict [(''step_index'', JList [JInt 1])], JInt 5]) = 1
   \<and> (\<forall>B. load_tasks B (\<lambda>p. Inr (JList [JDict [(''step_index'', JList [JInt 1])], JInt 5]))
              (Some ''tasks.json'') 5 = Inl TypeError)"
  by (simp add: load_tasks_def tasks_data_def task_of_item_def py_or_def)

theorem load_tasks_skips_non_objects_witness:
  "length (filter is_dict [JInt 5, JDict [(''prompt'', JStr ''Click'')], JStr ''x'']) = 1
   \<and> (\<forall>B. list_all (step_index_ok B)
               (filter is_dict [JInt 5, JDict [(''prompt'', JStr ''Click'')], JStr ''x''])
          \<and> (\<exists>ts. load_tasks B
                      (\<lambda>p. Inr (JDict [(''tasks'',
                                   JList [JInt 5, JDict [(''prompt'', JStr ''Click'')], JStr ''x''])]))
                      (Some ''tasks.json'') 5 = Inr ts
                  \<and> length ts = 1))"
proof -
  let ?data = "[JInt 5, JDict [(''prompt'', JStr ''Click'')], JStr ''x'']"
  let ?raw = "JDict [(''tasks'', JList ?data)]"
  have h1: "''tasks.json'' \<noteq> []" by simp
  have h2: "(\<lambda>p::string. (Inr ?raw :: error + json)) ''tasks.json'' = Inr ?raw" by simp
  have h3: "?raw = JList ?data \<or> (is_dict ?raw \<and> dict_get ?raw ''tasks'' = JList ?data)" by simp
  have ok: "list_all (step_index_ok B) (filter is_dict ?data)" for B
    by (simp add: step_index_ok_def py_or_def)
  have n: "length (filter is_dict ?data) = 1" by simp
  have "\<exists>ts. load_tasks B (\<lambda>p. Inr ?raw) (Some ''tasks.json'') 5 = Inr ts \<and> length ts = 1" for B
    using load_tasks_skips_non_objects [OF h1 h2 h3, of B 5] ok [of B] unfolding n by blast
  with ok n show ?thesis by blast
qed

text \<open>
  C7, as the code has it: a file that decodes to neither a list nor an object with a list
  under \<open>tasks\<close> makes \<open>load_tasks\<close> raise \<open>ValueError\<close> with the message of the source,
  and the program ends with that error before it makes a run.
\<close>

theorem load_tasks_wrong_shape:
  assumes "p \<noteq> []" and "read_json p = Inr raw"
    and "\<not> is_list raw" and "\<not> (is_dict raw \<and> is_list (dict_get raw ''tasks''))"
  shows "load_tasks B read_json (Some p) n
           = Inl (ValueError ''tasks file must be a JSON list or {'tasks':[...]} object'')
       \<and> eval_main B read_json post u (Some p) n rep
           = Inl (ValueError ''tasks file must be a JSON list or {'tasks':[...]} object'')"
proof -
  from assms(3,4) have "tasks_data raw
      = Inl (ValueError ''tasks file must be a JSON list or {'tasks':[...]} object'')"
    by (auto simp: tasks_data_def)
  with assms(1,2) show ?thesis
    by (simp add: eval_main_def load_tasks_def)
qed

text \<open>
  C7 as stated gives another wording for the message; the error raised does not carry it.
\<close>

theorem load_tasks_message_counterexample:
  "\<not> is_list (JDict [(''tasks'', JInt 3)])
   \<and> \<not> is_list (dict_get (JDict [(''tasks'', JInt 3)]) ''tasks'')
   \<and> (\<forall>B. load_tasks B (\<lambda>p. Inr (JDict [(''tasks'', JInt 3)])) (Some ''tasks.json'') 5
         \<noteq> Inl (ValueError ''tasks file must be a JSON list or an object with a tasks list''))"
  by (simp add: load_tasks_def tasks_data_def)

theorem load_tasks_wrong_shape_witness:
  "''tasks.json'' \<noteq> []
   \<and> \<not> is_list (JDict [(''tasks'', JInt 3)])
   \<and> \<not> (is_dict (JDict [(''tasks'', JInt 3)]) \<and> is_list (dict_get (JDict [(''tasks'', JInt 3)]) ''tasks''))
   \<and> (\<forall>B post. load_tasks B (\<lambda>p. Inr (JDict [(''tasks'', JInt 3)])) (Some ''tasks.json'') 5
           = Inl (ValueError ''tasks file must be a JSON list or {'tasks':[...]} object'')
         \<and> eval_main B (\<lambda>p. Inr (JDict [(''tasks'', JInt 3)])) post ''http://127.0.0.1:5000''
             (Some ''tasks.json'') 5 1
           = Inl (ValueError ''tasks file must be a JSON list or {'tasks':[...]} object''))"
proof -
  let ?raw = "JDict [(''tasks'', JInt 3)]"
  have h1: "''tasks.json'' \<noteq> []" by simp
  have h2: "(\<lambda>p::string. (Inr ?raw :: error + json)) ''tasks.json'' = Inr ?raw" by simp
  have h3: "\<not> is_list ?raw" by simp
  have h4: "\<not> (is_dict ?raw \<and> is_list (dict_get ?raw ''tasks''))" by simp
  note a = load_tasks_wrong_shape [OF h1 h2 h3 h4]
  from a h1 h3 h4 show ?thesis by blast
qed

lemma task_of_item_fields:
  "task_of_item B i item = Inr t \<Longrightarrow>
     task_id t = field_or B item ''task_id'' (''task-'' @ show_nat i)
     \<and> prompt t = field_or B item ''prompt'' ''Template task''
     \<and> url t = field_or B item ''url'' ''https://example.com''
     \<and> snapshot_html t = field_or B item ''snapshot_html'' ''<html></html>''
     \<and> py_int B (py_or (dict_get item ''step_index'') (JInt 0)) = Inr (step_index t)
     \<and> history t = (case dict_get item ''history'' of JList h \<Rightarrow> h | _ \<Rightarrow> [])"
  by (auto simp: task_of_item_def field_or_def py_or_def split: sum.splits)

lemma field_or_str:
  "dict_get item key = JStr s \<Longrightarrow> field_or B item key fallback = (if s = [] then fallback else s)"
  by (simp add: field_or_def)

lemma field_or_absent:
  "dict_get item key = JNull \<Longrightarrow> field_or B item key fallback = fallback"
  by (simp add: field_or_def)

text \<open>
  C8, as the code has it: when \<open>load_tasks\<close> succeeds on a file whose list is \<open>data\<close>, the
  task made from the object at position \<open>j\<close> stands in the result after the tasks of the
  objects before it. Its \<open>task_id\<close>, \<open>prompt\<close>, \<open>url\<close> and \<open>snapshot_html\<close> are the entry's
  values through \<^verbatim>\<open>str\<close> when these count as true, and the defaults otherwise: that is,
  when the field is absent, \<open>null\<close>, false, zero or empty. The default of \<open>task_id\<close> is
  \<open>task-j\<close>. Its \<open>step_index\<close> is \<^verbatim>\<open>int\<close> of the entry's value, and 0 when that value does
  not count as true; its \<open>history\<close> is the entry's value when that is a list, and empty
  otherwise.
\<close>

theorem load_tasks_fields:
  assumes "p \<noteq> []" and "read_json p = Inr raw"
    and "raw = JList data \<or> (is_dict raw \<and> dict_get raw ''tasks'' = JList data)"
    and "load_tasks B read_json (Some p) n = Inr ts"
    and "j < length data" and "is_dict (data ! j)"
  shows "task_id (ts ! length (filter is_dict (take j data)))
           = field_or B (data ! j) ''task_id'' (''task-'' @ show_nat j)
       \<and> prompt (ts ! length (filter is_dict (take j data)))
           = field_or B (data ! j) ''prompt'' ''Template task''
       \<and> url (ts ! length (filter is_dict (take j data)))
           = field_or B (data ! j) ''url'' ''https://example.com''
       \<and> snapshot_html (ts ! length (filter is_dict (take j data)))
           = field_or B (data ! j) ''snapshot_html'' ''<html></html>''
       \<and> py_int B (py_or (dict_get (data ! j) ''step_index'') (JInt 0))
           = Inr (step_index (ts ! length (filter is_dict (take j data))))
       \<and> (\<not> truthy (dict_get (data ! j) ''step_index'') \<longrightarrow>
            step_index (ts ! length (filter is_dict (take j data))) = 0)
       \<and> history (ts ! length (filter is_dict (take j data)))
           = (case dict_get (data ! j) ''history'' of JList h \<Rightarrow> h | _ \<Rightarrow> [])
       \<and> (\<forall>key fallback s. dict_get (data ! j) key = JStr s \<longrightarrow>
            field_or B (data ! j) key fallback = (if s = [] then fallback else s))
       \<and> (\<forall>key fallback. dict_get (data ! j) key = JNull \<longrightarrow>
            field_or B (data ! j) key fallback = fallback)"
proof -
  from assms(3) have d: "tasks_data raw = Inr data" by (rule tasks_data_cases)
  have "load_tasks B read_json (Some p) n = load_items B 0 data []"
    using assms(1,2) d by (rule load_tasks_file)
  with assms(4) have l: "load_items B 0 data [] = Inr ts" by simp
  from load_items_nth [OF l assms(5,6)]
  have t: "task_of_item B j (data ! j) = Inr (ts ! length (filter is_dict (take j data)))"
    by simp
  note f = task_of_item_fields [OF t]
  have z: "\<not> truthy (dict_get (data ! j) ''step_index'') \<longrightarrow>
            step_index (ts ! length (filter is_dict (take j data))) = 0"
    using f by (auto simp: py_or_def)
  from f z field_or_str field_or_absent show ?thesis by blast
qed

text \<open>
  C8 as stated lets the fallback of \<open>prompt\<close> apply only when the field is absent. An entry
  whose \<open>prompt\<close> is present and empty gets the fallback too.
\<close>

theorem load_tasks_empty_prompt_counterexample:
  "map_of [(''prompt'', JStr [])] ''prompt'' = Some (JStr [])
   \<and> (\<forall>B. load_tasks B (\<lambda>p. Inr (JList [JDict [(''prompt'', JStr [])]])) (Some ''tasks.json'') 5
         = Inr [\<lparr> task_id = ''task-0'', prompt = ''Template task'', url = ''https://example.com'',
                  snapshot_html = ''<html></html>'', step_index = 0, history = [] \<rparr>])"
  by (simp add: load_tasks_def tasks_data_def task_of_item_def py_or_def show_nat_0)

theorem load_tasks_fields_witness:
  "(1::nat) < length [JInt 5, JDict [(''task_id'', JStr ''t1''), (''prompt'', JStr []),
                                     (''step_index'', JFloat (5 / 2)), (''history'', JStr ''none'')]]
   \<and> is_dict ([JInt 5, JDict [(''task_id'', JStr ''t1''), (''prompt'', JStr []),
                               (''step_index'', JFloat (5 / 2)), (''history'', JStr ''none'')]] ! 1)
   \<and> (\<forall>B. load_tasks B
            (\<lambda>p. Inr (JList [JInt 5, JDict [(''task_id'', JStr ''t1''), (''prompt'', JStr []),
                                             (''step_index'', JFloat (5 / 2)), (''history'', JStr ''none'')]]))
            (Some ''tasks.json'') 5
          = Inr [\<lparr> task_id = ''t1'', prompt = ''Template task'', url = ''https://example.com'',
                   snapshot_html = ''<html></html>'', step_index = 2, history = [] \<rparr>]
        \<and> field_or B (JDict [(''task_id'', JStr ''t1''), (''prompt'', JStr []),
                              (''step_index'', JFloat (5 / 2)), (''history'', JStr ''none'')])
             ''task_id'' ''task-1'' = ''t1''
        \<and> field_or B (JDict [(''task_id'', JStr ''t1''), (''prompt'', JStr []),
                              (''step_index'', JFloat (5 / 2)), (''history'', JStr ''none'')])
             ''prompt'' ''Template task'' = ''Template task'')"
proof -
  let ?item = "JDict [(''task_id'', JStr ''t1''), (''prompt'', JStr []),
                      (''step_index'', JFloat (5 / 2)), (''history'', JStr ''none'')]"
  let ?data = "[JInt 5, ?item]"
  let ?t = "\<lparr> task_id = ''t1'', prompt = ''Template task'', url = ''https://example.com'',
              snapshot_html = ''<html></html>'', step_index = 2, history = [] \<rparr>"
  have fl: "\<lfloor>5 / 2 :: rat\<rfloor> = 2" by code_simp
  have h1: "''tasks.json'' \<noteq> []" by simp
  have h2: "(\<lambda>p::string. (Inr (JList ?data) :: error + json)) ''tasks.json'' = Inr (JList ?data)" by simp
  have h3: "JList ?data = JList ?data \<or> (is_dict (JList ?data) \<and> dict_get (JList ?data) ''tasks'' = JList ?data)"
    by simp
  have h4: "load_tasks B (\<lambda>p. Inr (JList ?data)) (Some ''tasks.json'') 5 = Inr [?t]" for B
    by (simp add: load_tasks_def tasks_data_def task_of_item_def py_or_def fl)
  have h5: "(1::nat) < length ?data" by simp
  have h6: "is_dict (?data ! 1)" by simp
  have "field_or B ?item ''task_id'' ''task-1'' = ''t1''
        \<and> field_or B ?item ''prompt'' ''Template task'' = ''Template task''" for B
    using load_tasks_fields [OF h1 h2 h3 h4 h5 h6, of B] by (simp add: show_nat_1)
  with h4 h5 h6 show ?thesis by blast
qed

section \<open>Properties of the slug\<close>

lemma re_sub_not_takeWhile:
  "re_sub_not keep repl s = takeWhile keep s @ re_sub_not keep repl (dropWhile keep s)"
  by (induction s) simp_all

lemma same_class_keep: "keep c \<Longrightarrow> (\<lambda>x. keep x = keep c) = keep"
  by (simp add: fun_eq_iff)

lemma same_class_drop: "\<not> keep c \<Longrightarrow> (\<lambda>x. keep x = keep c) = (\<lambda>x. \<not> keep x)"
  by (simp add: fun_eq_iff)

lemma re_sub_not_runs:
  "re_sub_not keep ''_'' s = concat (map (collapse_run keep) (runs keep s))"
proof (induction keep s rule: runs.induct)
  case (1 keep)
  show ?case by simp
next
  case (2 keep c cs)
  show ?case
  proof (cases "keep c")
    case True
    have P: "(\<lambda>x. keep x = keep c) = keep"
      using True by (rule same_class_keep)
    have all: "list_all keep (c # takeWhile keep cs)"
      using True by (auto simp: list_all_iff dest: set_takeWhileD)
    have c1: "collapse_run keep (c # takeWhile keep cs) = c # takeWhile keep cs"
      using all by (simp only: collapse_run_def if_True)
    have r: "runs keep (c # cs) = (c # takeWhile keep cs) # runs keep (dropWhile keep cs)"
      by (simp only: runs.simps P)
    from "2.IH" have IH: "re_sub_not keep ''_'' (dropWhile keep cs)
        = concat (map (collapse_run keep) (runs keep (dropWhile keep cs)))"
      by (simp only: P)
    have "re_sub_not keep ''_'' (c # cs) = c # re_sub_not keep ''_'' cs"
      using True by simp
    also have "\<dots> = c # takeWhile keep cs @ re_sub_not keep ''_'' (dropWhile keep cs)"
      by (subst re_sub_not_takeWhile) simp
    also have "\<dots> = concat (map (collapse_run keep) (runs keep (c # cs)))"
      by (simp only: r IH c1 list.map concat.simps append_Cons)
    finally show ?thesis .
  next
    case False
    have P: "(\<lambda>x. keep x = keep c) = (\<lambda>x. \<not> keep x)"
      using False by (rule same_class_drop)
    have c1: "collapse_run keep (c # takeWhile (\<lambda>x. \<not> keep x) cs) = ''_''"
      using False by (simp add: collapse_run_def)
    have r: "runs keep (c # cs)
        = (c # takeWhile (\<lambda>x. \<not> keep x) cs) # runs keep (dropWhile (\<lambda>x. \<not> keep x) cs)"
      by (simp only: runs.simps P)
    from "2.IH" have IH: "re_sub_not keep ''_'' (dropWhile (\<lambda>x. \<not> keep x) cs)
        = concat (map (collapse_run keep) (runs keep (dropWhile (\<lambda>x. \<not> keep x) cs)))"
      by (simp only: P)
    have "re_sub_not keep ''_'' (c # cs)
        = ''_'' @ re_sub_not keep ''_'' (dropWhile (\<lambda>x. \<not> keep x) cs)"
      using False by simp
    also have "\<dots> = concat (map (collapse_run keep) (runs keep (c # cs)))"
      by (simp only: r IH c1 list.map concat.simps)
    finally show ?thesis .
  qed
qed

lemma concat_runs: "concat (runs keep s) = s"
  by (induction keep s rule: runs.induct) simp_all

lemma runs_uniform:
  "r \<in> set (runs keep s) \<Longrightarrow> r \<noteq> [] \<and> (list_all keep r \<or> list_all (\<lambda>x. \<not> keep x) r)"
proof (induction keep s rule: runs.induct)
  case (1 keep)
  then show ?case by simp
next
  case (2 keep c cs)
  show ?case
  proof (cases "r = c # takeWhile (\<lambda>x. keep x = keep c) cs")
    case True
    show ?thesis
    proof (cases "keep c")
      case k: True
      have P: "(\<lambda>x. keep x = keep c) = keep"
        using k by (rule same_class_keep)
      have "list_all keep (c # takeWhile keep cs)"
        using k by (auto simp: list_all_iff dest: set_takeWhileD)
      then show ?thesis unfolding True P by simp
    next
      case k: False
      have P: "(\<lambda>x. keep x = keep c) = (\<lambda>x. \<not> keep x)"
        using k by (rule same_class_drop)
      have "list_all (\<lambda>x. \<not> keep x) (c # takeWhile (\<lambda>x. \<not> keep x) cs)"
        using k by (auto simp: list_all_iff dest: set_takeWhileD)
      then show ?thesis unfolding True P by simp
    qed
  next
    case False
    from "2.prems" have "r = c # takeWhile (\<lambda>x. keep x = keep c) cs
        \<or> r \<in> set (runs keep (dropWhile (\<lambda>x. keep x = keep c) cs))"
      by (simp only: runs.simps set_simps insert_iff)
    with False have "r \<in> set (runs keep (dropWhile (\<lambda>x. keep x = keep c) cs))" by blast
    then show ?thesis by (rule "2.IH")
  qed
qed

lemma runs_alternate: "distinct_adj (map (\<lambda>r. keep (hd r)) (runs keep s))"
proof (induction keep s rule: runs.induct)
  case (1 keep)
  show ?case by simp
next
  case (2 keep c cs)
  let ?P = "\<lambda>x. keep x = keep c"
  show ?case
  proof (cases "dropWhile ?P cs")
    case Nil
    have "runs keep (c # cs) = [c # takeWhile ?P cs]"
      by (simp only: runs.simps Nil)
    then show ?thesis by (simp only: list.map distinct_adj_singleton)
  next
    case (Cons d ds)
    have "dropWhile ?P cs \<noteq> []" by (simp only: Cons) simp
    then have "\<not> ?P (hd (dropWhile ?P cs))" by (rule hd_dropWhile)
    then have "keep d \<noteq> keep c" unfolding Cons list.sel by assumption
    then have nd: "keep c \<noteq> keep d" by (rule not_sym)
    have r: "runs keep (c # cs) = (c # takeWhile ?P cs) # runs keep (d # ds)"
      by (simp only: runs.simps Cons)
    obtain run rest where r2: "runs keep (d # ds) = (d # run) # rest"
      by (simp only: runs.simps)
    from "2.IH" have "distinct_adj (map (\<lambda>r. keep (hd r)) ((d # run) # rest))"
      by (simp only: Cons r2)
    then have "distinct_adj (keep d # map (\<lambda>r. keep (hd r)) rest)"
      by (simp only: list.map list.sel)
    with nd have "distinct_adj (keep c # keep d # map (\<lambda>r. keep (hd r)) rest)"
      by simp
    then show ?thesis
      by (simp only: r r2 list.map list.sel)
  qed
qed

lemma slug_example: "slug \<lparr> provider = ''OpenAI'', model = ''GPT 5.2!'' \<rparr> = ''openai__gpt_5.2_''"
  by (simp add: slug_def str_lower_def lower_char_def slug_char_def)

text \<open>
  C9: the slug of a configuration is the text \<open>provider__model\<close>, in lower case, in which
  every maximal run of characters outside \<^verbatim>\<open>[a-z0-9._-]\<close> has become one underscore. The
  runs are maximal: they make up the text, each one is not empty and lies wholly inside or
  wholly outside the class, and two neighbours never lie on the same side. For the provider
  \<open>OpenAI\<close> and the model \<open>GPT 5.2!\<close> the slug is \<open>openai__gpt_5.2_\<close>.
\<close>

theorem slug_collapses_runs:
  "slug spec = slug_in_words spec
   \<and> concat (runs slug_char s) = s
   \<and> (\<forall>r \<in> set (runs slug_char s).
         r \<noteq> [] \<and> (list_all slug_char r \<or> list_all (\<lambda>x. \<not> slug_char x) r))
   \<and> distinct_adj (map (\<lambda>r. slug_char (hd r)) (runs slug_char s))
   \<and> slug \<lparr> provider = ''OpenAI'', model = ''GPT 5.2!'' \<rparr> = ''openai__gpt_5.2_''"
proof -
  have a: "slug spec = slug_in_words spec"
    by (simp add: slug_def slug_in_words_def re_sub_not_runs)
  have b: "\<forall>r \<in> set (runs slug_char s).
         r \<noteq> [] \<and> (list_all slug_char r \<or> list_all (\<lambda>x. \<not> slug_char x) r)"
    using runs_uniform by blast
  from a b concat_runs [of slug_char s] runs_alternate [of slug_char s] slug_example
  show ?thesis by blast
qed

lemma runs_example: "runs slug_char ''gpt 5.2!'' = [''gpt'', '' '', ''5.2'', ''!'']"
  by code_simp

theorem slug_collapses_runs_witness:
  "slug_in_words \<lparr> provider = ''OpenAI'', model = ''GPT 5.2!'' \<rparr> = ''openai__gpt_5.2_''
   \<and> runs slug_char ''gpt 5.2!'' = [''gpt'', '' '', ''5.2'', ''!'']
   \<and> '' '' \<in> set (runs slug_char ''gpt 5.2!'')
   \<and> list_all (\<lambda>x. \<not> slug_char x) '' ''"
proof -
  note a = slug_collapses_runs [of "\<lparr> provider = ''OpenAI'', model = ''GPT 5.2!'' \<rparr>" "''gpt 5.2!''"]
  have m: "'' '' \<in> set (runs slug_char ''gpt 5.2!'')" unfolding runs_example by simp
  have n: "\<not> list_all slug_char '' ''" by (simp add: slug_char_def)
  from a have e: "slug \<lparr> provider = ''OpenAI'', model = ''GPT 5.2!'' \<rparr>
      = slug_in_words \<lparr> provider = ''OpenAI'', model = ''GPT 5.2!'' \<rparr>"
    by (rule conjunct1)
  note x = a [THEN conjunct2, THEN conjunct2, THEN conjunct2, THEN conjunct2]
  from e x have w: "slug_in_words \<lparr> provider = ''OpenAI'', model = ''GPT 5.2!'' \<rparr> = ''openai__gpt_5.2_''"
    by (simp only:)
  note y = a [THEN conjunct2, THEN conjunct2, THEN conjunct1]
  from bspec [OF y m] n have u: "list_all (\<lambda>x. \<not> slug_char x) '' ''" by (elim conjE disjE) (erule notE)
  show ?thesis
    by (intro conjI w runs_example m u)
qed

section \<open>Properties of the comparator\<close>

lemma launched_run_one: "launched (run_one B W spec st) = launched st @ [spec]"
  by (simp add: run_one_def Let_def split: sum.splits)

lemma outcome_run_one_exit:
  "subprocess_run W (length (launched st)) spec = Inr c \<Longrightarrow> c \<noteq> 0 \<Longrightarrow>
     outcome (run_one B W spec st) = Some (SystemExit c)"
  by (simp add: run_one_def Let_def)

lemma run_specs_loop_trace:
  "outcome st = None \<Longrightarrow>
     (\<exists>n \<le> length rest. launched (run_specs_loop B W rest st) = launched st @ take n rest)
     \<and> (\<forall>j c. j < length (launched (run_specs_loop B W rest st)) - length (launched st)
               \<and> subprocess_run W (length (launched st) + j) (rest ! j) = Inr c \<and> c \<noteq> 0 \<longrightarrow>
            outcome (run_specs_loop B W rest st) = Some (SystemExit c)
            \<and> launched (run_specs_loop B W rest st) = launched st @ take (Suc j) rest)"
proof (induction rest arbitrary: st)
  case Nil
  then show ?case by simp
next
  case (Cons spec rest)
  let ?st1 = "run_one B W spec st"
  have l1: "launched ?st1 = launched st @ [spec]" by (rule launched_run_one)
  show ?case
  proof (cases "outcome ?st1 = None")
    case False
    then have R: "run_specs_loop B W (spec # rest) st = ?st1" by (simp add: Let_def)
    have a: "\<exists>n \<le> length (spec # rest). launched ?st1 = launched st @ take n (spec # rest)"
      by (rule exI [of _ 1]) (simp add: l1)
    have b: "outcome ?st1 = Some (SystemExit c) \<and> launched ?st1 = launched st @ take (Suc j) (spec # rest)"
      if "j < length (launched ?st1) - length (launched st)"
        and "subprocess_run W (length (launched st) + j) ((spec # rest) ! j) = Inr c" and "c \<noteq> 0"
      for j c
    proof -
      from that(1) have "j = 0" by (simp add: l1)
      with that(2,3) show ?thesis by (simp add: l1 outcome_run_one_exit)
    qed
    from a b show ?thesis unfolding R by blast
  next
    case True
    then have R: "run_specs_loop B W (spec # rest) st = run_specs_loop B W rest ?st1"
      by (simp add: Let_def)
    note IH = Cons.IH [OF True]
    from IH obtain n where n: "n \<le> length rest"
      and ln: "launched (run_specs_loop B W rest ?st1) = launched ?st1 @ take n rest" by blast
    have a: "\<exists>m \<le> length (spec # rest).
        launched (run_specs_loop B W rest ?st1) = launched st @ take m (spec # rest)"
      by (rule exI [of _ "Suc n"]) (simp add: ln l1 n)
    have b: "outcome (run_specs_loop B W rest ?st1) = Some (SystemExit c)
        \<and> launched (run_specs_loop B W rest ?st1) = launched st @ take (Suc j) (spec # rest)"
      if j: "j < length (launched (run_specs_loop B W rest ?st1)) - length (launched st)"
        and s: "subprocess_run W (length (launched st) + j) ((spec # rest) ! j) = Inr c" and c: "c \<noteq> 0"
      for j c
    proof (cases j)
      case 0
      with s c have "outcome ?st1 = Some (SystemExit c)" by (simp add: outcome_run_one_exit)
      with True show ?thesis by simp
    next
      case (Suc j')
      from j Suc have j': "j' < length (launched (run_specs_loop B W rest ?st1)) - length (launched ?st1)"
        by (simp add: l1)
      from s Suc have s': "subprocess_run W (length (launched ?st1) + j') (rest ! j') = Inr c"
        by (simp add: l1)
      from IH j' s' c have "outcome (run_specs_loop B W rest ?st1) = Some (SystemExit c)
        \<and> launched (run_specs_loop B W rest ?st1) = launched ?st1 @ take (Suc j') rest"
        by blast
      with Suc show ?thesis by (simp add: l1)
    qed
    from a b show ?thesis unfolding R by blast
  qed
qed


lemma run_specs_loop_complete:
  "outcome st = None \<Longrightarrow> outcome (run_specs_loop B W rest st) = None \<Longrightarrow>
     launched (run_specs_loop B W rest st) = launched st @ rest"
proof (induction rest arbitrary: st)
  case Nil
  then show ?case by simp
next
  case (Cons spec rest)
  show ?case
  proof (cases "outcome (run_one B W spec st) = None")
    case True
    with Cons.prems(2) have "outcome (run_specs_loop B W rest (run_one B W spec st)) = None"
      by (simp add: Let_def)
    from Cons.IH [OF True this] True show ?thesis
      by (simp add: Let_def launched_run_one)
  next
    case False
    with Cons.prems(2) show ?thesis by (simp add: Let_def)
  qed
qed

lemma compare_main_exit_no_summary:
  "exit_with (compare_main B W specs) \<noteq> None \<longrightarrow> compare_summary (compare_main B W specs) = None"
  by (simp add: compare_main_def Let_def split: option.splits)

text \<open>
  C5: the comparator launches the sub-runs in the order of its input, so that the sub-runs
  launched are always an initial part of the configurations. When the sub-run of the
  configuration at position \<open>k\<close> has been launched and returns a code \<open>c\<close> other than zero, the
  comparison exits with \<open>c\<close>, no configuration after \<open>k\<close> is launched, and
  \<^verbatim>\<open>compare_summary.json\<close> is not written. A comparison that ends without an exception has
  launched every configuration and has written the summary.
\<close>

theorem compare_aborts_on_failure:
  "sub_runs (compare_main B W specs) = take (length (sub_runs (compare_main B W specs))) specs
   \<and> (\<forall>k c. k < length (sub_runs (compare_main B W specs))
              \<and> subprocess_run W k (specs ! k) = Inr c \<and> c \<noteq> 0 \<longrightarrow>
          exit_with (compare_main B W specs) = Some (SystemExit c)
          \<and> sub_runs (compare_main B W specs) = take (Suc k) specs
          \<and> compare_summary (compare_main B W specs) = None)
   \<and> (exit_with (compare_main B W specs) \<noteq> None \<longrightarrow>
         compare_summary (compare_main B W specs) = None)
   \<and> (exit_with (compare_main B W specs) = None \<longrightarrow>
         sub_runs (compare_main B W specs) = specs
         \<and> (\<exists>rows. compare_summary (compare_main B W specs) = Some rows))"
proof -
  let ?init = "\<lparr> launched = [], summary_rows = [], outcome = None \<rparr>"
  let ?st = "run_specs_loop B W specs ?init"
  have o: "outcome ?init = None" and l0: "launched ?init = []" by simp_all
  note t = run_specs_loop_trace [OF o, of specs B W, unfolded l0]
  have sr: "sub_runs (compare_main B W specs) = launched ?st"
    and ex: "exit_with (compare_main B W specs) = outcome ?st"
    by (simp_all add: compare_main_def Let_def split: option.splits)
  from t obtain n where n: "n \<le> length specs" and ln: "launched ?st = take n specs"
    by auto
  have a: "launched ?st = take (length (launched ?st)) specs"
    using n by (simp add: ln)
  have b: "outcome ?st = Some (SystemExit c) \<and> launched ?st = take (Suc k) specs"
    if "k < length (launched ?st)" and "subprocess_run W k (specs ! k) = Inr c" and "c \<noteq> 0"
    for k c
    using t that by simp
  have c: "exit_with (compare_main B W specs) \<noteq> None \<longrightarrow>
         compare_summary (compare_main B W specs) = None"
    by (rule compare_main_exit_no_summary)
  have d: "exit_with (compare_main B W specs) = None \<longrightarrow>
         sub_runs (compare_main B W specs) = specs
         \<and> (\<exists>rows. compare_summary (compare_main B W specs) = Some rows)"
  proof
    assume n: "exit_with (compare_main B W specs) = None"
    then have on: "outcome ?st = None" unfolding ex .
    from run_specs_loop_complete [OF o on] have "launched ?st = specs" by simp
    moreover from on have "\<exists>rows. compare_summary (compare_main B W specs) = Some rows"
      by (simp add: compare_main_def Let_def)
    ultimately show "sub_runs (compare_main B W specs) = specs
         \<and> (\<exists>rows. compare_summary (compare_main B W specs) = Some rows)"
      unfolding sr by blast
  qed
  have abc: "launched ?st = take (length (launched ?st)) specs
   \<and> (\<forall>k c. k < length (launched ?st)
              \<and> subprocess_run W k (specs ! k) = Inr c \<and> c \<noteq> 0 \<longrightarrow>
          outcome ?st = Some (SystemExit c)
          \<and> launched ?st = take (Suc k) specs
          \<and> compare_summary (compare_main B W specs) = None)
   \<and> (exit_with (compare_main B W specs) \<noteq> None \<longrightarrow>
         compare_summary (compare_main B W specs) = None)"
    using a b c unfolding ex by (metis option.distinct(1))
  from abc d show ?thesis unfolding sr ex by blast
qed

lemma compare_example:
  "compare_main B
     \<lparr> compare_dir = ''/repo/data/compare'',
       subprocess_run = (\<lambda>k spec. Inr (if k = 0 then 0 else 1)),
       read_artifact = (\<lambda>k path. Inr (JDict [(''summary'',
          JDict [(''total_calls'', JInt 5), (''ok_calls'', JInt 5),
                 (''ok_rate'', JFloat 1), (''avg_latency_ms'', JFloat 12)])])) \<rparr>
     [\<lparr> provider = ''a'', model = ''m1'' \<rparr>, \<lparr> provider = ''b'', model = ''m2'' \<rparr>]
   = \<lparr> exit_with = Some (SystemExit 1),
       sub_runs = [\<lparr> provider = ''a'', model = ''m1'' \<rparr>, \<lparr> provider = ''b'', model = ''m2'' \<rparr>],
       compare_summary = None \<rparr>"
  by (simp add: compare_main_def run_one_def row_of_def py_or_def Let_def)

theorem compare_aborts_on_failure_witness:
  "\<forall>B. (1::nat) < length (sub_runs (compare_main B
            \<lparr> compare_dir = ''/repo/data/compare'',
       subprocess_run = (\<lambda>k spec. Inr (if k = 0 then 0 else 1)),
              read_artifact = (\<lambda>k path. Inr (JDict [(''summary'',
                 JDict [(''total_calls'', JInt 5), (''ok_calls'', JInt 5),
                        (''ok_rate'', JFloat 1), (''avg_latency_ms'', JFloat 12)])])) \<rparr>
            [\<lparr> provider = ''a'', model = ''m1'' \<rparr>, \<lparr> provider = ''b'', model = ''m2'' \<rparr>]))
      \<and> exit_with (compare_main B
            \<lparr> compare_dir = ''/repo/data/compare'',
       subprocess_run = (\<lambda>k spec. Inr (if k = 0 then 0 else 1)),
              read_artifact = (\<lambda>k path. Inr (JDict [(''summary'',
                 JDict [(''total_calls'', JInt 5), (''ok_calls'', JInt 5),
                        (''ok_rate'', JFloat 1), (''avg_latency_ms'', JFloat 12)])])) \<rparr>
            [\<lparr> provider = ''a'', model = ''m1'' \<rparr>, \<lparr> provider = ''b'', model = ''m2'' \<rparr>])
          = Some (SystemExit 1)
      \<and> compare_summary (compare_main B
            \<lparr> compare_dir = ''/repo/data/compare'',
       subprocess_run = (\<lambda>k spec. Inr (if k = 0 then 0 else 1)),
              read_artifact = (\<lambda>k path. Inr (JDict [(''summary'',
                 JDict [(''total_calls'', JInt 5), (''ok_calls'', JInt 5),
                        (''ok_rate'', JFloat 1), (''avg_latency_ms'', JFloat 12)])])) \<rparr>
            [\<lparr> provider = ''a'', model = ''m1'' \<rparr>, \<lparr> provider = ''b'', model = ''m2'' \<rparr>])
          = None"
proof
  fix B
  let ?W = "\<lparr> compare_dir = ''/repo/data/compare'',
              subprocess_run = (\<lambda>(k::nat) (spec::run_spec). (Inr (if k = 0 then 0 else 1) :: error + int)),
              read_artifact = (\<lambda>(k::nat) (path::string). (Inr (JDict [(''summary'',
                 JDict [(''total_calls'', JInt 5), (''ok_calls'', JInt 5),
                        (''ok_rate'', JFloat 1), (''avg_latency_ms'', JFloat 12)])]) :: error + json)) \<rparr>"
  let ?specs = "[\<lparr> provider = ''a'', model = ''m1'' \<rparr>, \<lparr> provider = ''b'', model = ''m2'' \<rparr>]"
  let ?R = "compare_main B ?W ?specs"
  have h1: "(1::nat) < length (sub_runs ?R)"
    unfolding compare_example by simp
  have h2: "subprocess_run ?W 1 (?specs ! 1) = Inr 1" by simp
  have h3: "(1::int) \<noteq> 0" by simp
  note t = compare_aborts_on_failure [of B ?W ?specs, THEN conjunct2, THEN conjunct1, rule_format, of 1 1]
  from t h1 h2 h3 have "exit_with ?R = Some (SystemExit 1) \<and> compare_summary ?R = None"
    by blast
  with h1 show "1 < length (sub_runs ?R) \<and> exit_with ?R = Some (SystemExit 1) \<and> compare_summary ?R = None"
    by blast
qed

end
